theory Spec2Isabelle
  imports Main "HOL-Library.Multiset"
begin

section \<open>Shared objects\<close>

text \<open>
  The adapter stores \<^verbatim>\<open>std::shared_ptr<Elem>\<close> handles. A handle is the address of
  the object it owns; the objects live in a store that \<^verbatim>\<open>std::make_shared\<close> extends by
  one fresh cell. The address of a cell is its index in the store, so a cell is never reused
  and an address allocated later differs from every earlier one.
\<close>

type_synonym handle = nat

type_synonym 'a objects = "'a list"

definition make_shared :: "'a \<Rightarrow> 'a objects \<Rightarrow> handle \<times> 'a objects" where
  "make_shared v mem = (length mem, mem @ [v])"

text \<open>\<^verbatim>\<open>*p\<close> for a non-null handle \<open>p\<close>.\<close>

definition deref :: "'a objects \<Rightarrow> handle \<Rightarrow> 'a" where
  "deref mem p = mem ! p"

section \<open>The wrapped container adapters\<close>

text \<open>
  \<^verbatim>\<open>Adapt<AdaptElem, Cont<ContElem, Alloc<AllocElem>>, Ts...>\<close> is one of the three
  container adapters of the C++ standard library: \<^verbatim>\<open>std::queue\<close> and \<^verbatim>\<open>std::stack\<close>
  (no \<^verbatim>\<open>Ts\<close>) and \<^verbatim>\<open>std::priority_queue\<close> (one \<^verbatim>\<open>Ts\<close>, the comparator). Each
  holds its elements in the protected member \<^verbatim>\<open>c\<close>, a sequence container.
\<close>

datatype ('e, 'cmp) Adapt =
    Queue "'e list"
  | Stack "'e list"
  | PriorityQueue 'cmp "'e list"

text \<open>\<^verbatim>\<open>getProtectedContainer\<close>: the member \<^verbatim>\<open>c\<close> of the adapter.\<close>

fun getProtectedContainer :: "('e, 'cmp) Adapt \<Rightarrow> 'e list" where
  "getProtectedContainer (Queue c) = c"
| "getProtectedContainer (Stack c) = c"
| "getProtectedContainer (PriorityQueue cmp c) = c"

subsection \<open>The heap algorithms of the standard library\<close>

text \<open>
  \<^verbatim>\<open>std::priority_queue\<close> is specified by the standard through \<^verbatim>\<open>std::push_heap\<close> and
  \<^verbatim>\<open>std::pop_heap\<close> on \<^verbatim>\<open>c\<close>: \<^verbatim>\<open>push(x)\<close> is \<^verbatim>\<open>c.push_back(x); push_heap(c.begin(), c.end(), comp)\<close>,
  \<^verbatim>\<open>pop()\<close> is \<^verbatim>\<open>pop_heap(c.begin(), c.end(), comp); c.pop_back()\<close> and \<^verbatim>\<open>top()\<close> is
  \<^verbatim>\<open>c.front()\<close>. The two algorithms are library code; they are modelled by the binary-heap
  sift operations on the implicit tree in which the parent of index \<open>i\<close> is \<open>(i - 1) div 2\<close>.
\<close>

definition parent :: "nat \<Rightarrow> nat" where
  "parent i = (i - 1) div 2"

definition swap :: "'e list \<Rightarrow> nat \<Rightarrow> nat \<Rightarrow> 'e list" where
  "swap c i j = c[i := c ! j, j := c ! i]"

function sift_up :: "('e \<Rightarrow> 'e \<Rightarrow> bool) \<Rightarrow> 'e list \<Rightarrow> nat \<Rightarrow> 'e list" where
  "sift_up lt c i =
     (if i = 0 then c
      else if lt (c ! parent i) (c ! i) then sift_up lt (swap c i (parent i)) (parent i)
      else c)"
  by pat_completeness auto
termination
  by (relation "measure (\<lambda>(lt, c, i). i)") (auto simp: parent_def)

function sift_down :: "('e \<Rightarrow> 'e \<Rightarrow> bool) \<Rightarrow> 'e list \<Rightarrow> nat \<Rightarrow> nat \<Rightarrow> 'e list" where
  "sift_down lt c n i =
     (if 2 * i + 1 < n then
        (let m = (if 2 * i + 2 < n \<and> lt (c ! (2 * i + 1)) (c ! (2 * i + 2))
                  then 2 * i + 2 else 2 * i + 1)
         in if lt (c ! i) (c ! m) then sift_down lt (swap c i m) n m else c)
      else c)"
  by pat_completeness auto
termination
  by (relation "measure (\<lambda>(lt, c, n, i). n - i)") (auto simp: Let_def)

declare sift_up.simps [simp del] sift_down.simps [simp del]

text \<open>\<^verbatim>\<open>std::push_heap\<close>: the last element is sifted up into the heap before it.\<close>

definition push_heap :: "('e \<Rightarrow> 'e \<Rightarrow> bool) \<Rightarrow> 'e list \<Rightarrow> 'e list" where
  "push_heap lt c = sift_up lt c (length c - 1)"

text \<open>
  \<^verbatim>\<open>std::pop_heap\<close>: the first element is exchanged with the last, and the new first
  element is sifted down in the range without the last position. The standard requires of
  the result only that the old first element is last and the range before it is a heap, on
  an argument that is a heap: which of several equivalent elements comes first, and what
  happens to an argument that is no heap, differ between implementations (libstdc++ moves
  the hole to a leaf and sifts up). Nothing below depends on either.
\<close>

definition pop_heap :: "('e \<Rightarrow> 'e \<Rightarrow> bool) \<Rightarrow> 'e list \<Rightarrow> 'e list" where
  "pop_heap lt c = sift_down lt (swap c 0 (length c - 1)) (length c - 1) 0"

subsection \<open>Member functions of the container adapters\<close>

text \<open>
  The comparator object of a priority queue has type \<open>'cmp\<close>; \<open>ap\<close> says how such an
  object is called on two elements.
\<close>

definition std_empty :: "('e, 'cmp) Adapt \<Rightarrow> bool" where
  "std_empty a = (getProtectedContainer a = [])"

fun std_push :: "('cmp \<Rightarrow> 'e \<Rightarrow> 'e \<Rightarrow> bool) \<Rightarrow> 'e \<Rightarrow> ('e, 'cmp) Adapt \<Rightarrow> ('e, 'cmp) Adapt" where
  "std_push ap x (Queue c) = Queue (c @ [x])"
| "std_push ap x (Stack c) = Stack (c @ [x])"
| "std_push ap x (PriorityQueue cmp c) = PriorityQueue cmp (push_heap (ap cmp) (c @ [x]))"

text \<open>\<^verbatim>\<open>pop()\<close>, \<^verbatim>\<open>front()\<close> and \<^verbatim>\<open>top()\<close> have the precondition that the adapter is not empty.\<close>

fun std_pop :: "('cmp \<Rightarrow> 'e \<Rightarrow> 'e \<Rightarrow> bool) \<Rightarrow> ('e, 'cmp) Adapt \<Rightarrow> ('e, 'cmp) Adapt" where
  "std_pop ap (Queue c) = Queue (tl c)"
| "std_pop ap (Stack c) = Stack (butlast c)"
| "std_pop ap (PriorityQueue cmp c) = PriorityQueue cmp (butlast (pop_heap (ap cmp) c))"

text \<open>\<^verbatim>\<open>std::queue\<close> has \<^verbatim>\<open>front()\<close> and no \<^verbatim>\<open>top()\<close>; the other two have \<^verbatim>\<open>top()\<close> only.\<close>

fun std_front :: "('e, 'cmp) Adapt \<Rightarrow> 'e" where
  "std_front (Queue c) = hd c"

fun std_top :: "('e, 'cmp) Adapt \<Rightarrow> 'e" where
  "std_top (Stack c) = last c"
| "std_top (PriorityQueue cmp c) = hd c"

section \<open>ThreadsafeSTLAdapter.h\<close>

datatype error = EmptyAdapter

text \<open>\<^verbatim>\<open>detectTopMethod<Adapter>()\<close>: whether the adapter type has a member \<^verbatim>\<open>top()\<close>.\<close>

fun detectTopMethod :: "('e, 'cmp) Adapt \<Rightarrow> bool" where
  "detectTopMethod (Queue c) = False"
| "detectTopMethod (Stack c) = True"
| "detectTopMethod (PriorityQueue cmp c) = True"

definition getCurrent :: "('e, 'cmp) Adapt \<Rightarrow> 'e" where
  "getCurrent adapter = (if detectTopMethod adapter then std_top adapter else std_front adapter)"

text \<open>
  \<^verbatim>\<open>CustomComparator<Comparator>\<close> holds the comparator on elements; its call operator
  takes two handles and calls the comparator on the objects they own.
\<close>

datatype 'a CustomComparator = CustomComparator (m_comparator: "'a \<Rightarrow> 'a \<Rightarrow> bool")

definition call_operator :: "'a objects \<Rightarrow> 'a CustomComparator \<Rightarrow> handle \<Rightarrow> handle \<Rightarrow> bool" where
  "call_operator mem cc x y = m_comparator cc (deref mem x) (deref mem y)"

text \<open>
  The class \<^verbatim>\<open>ThreadsafeSTLAdapter\<close>: the adapter of handles \<^verbatim>\<open>m_adapter\<close>, and the
  objects its handles own. Every member function holds \<^verbatim>\<open>m_mutex\<close> from its first access
  to \<^verbatim>\<open>m_adapter\<close> to its last, so each is one step on this state; \<^verbatim>\<open>m_mutex\<close> and
  \<^verbatim>\<open>m_condVar\<close> carry no data.
\<close>

record 'a ThreadsafeSTLAdapter =
  m_adapter :: "(handle, 'a CustomComparator) Adapt"
  objects :: "'a objects"

definition push :: "'a \<Rightarrow> 'a ThreadsafeSTLAdapter \<Rightarrow> 'a ThreadsafeSTLAdapter" where
  "push v t =
     (let (item, mem) = make_shared v (objects t)
      in \<lparr> m_adapter = std_push (call_operator mem) item (m_adapter t), objects = mem \<rparr>)"

text \<open>\<^verbatim>\<open>notify_one\<close> changes no data.\<close>

definition pushAndNotify :: "'a \<Rightarrow> 'a ThreadsafeSTLAdapter \<Rightarrow> 'a ThreadsafeSTLAdapter" where
  "pushAndNotify v t = push v t"

text \<open>
  The removal that ends every pop: \<^verbatim>\<open>m_adapter.pop()\<close>. The object of the removed handle
  stays in the store; no handle of \<^verbatim>\<open>m_adapter\<close> refers to it any more.
\<close>

definition remove_current :: "'a ThreadsafeSTLAdapter \<Rightarrow> 'a ThreadsafeSTLAdapter" where
  "remove_current t = t\<lparr> m_adapter := std_pop (call_operator (objects t)) (m_adapter t) \<rparr>"

text \<open>
  The overloads with an output parameter take the parameter's old contents \<open>v\<close> and return
  the result, the parameter's new contents and the adapter. A thrown exception is the
  result \<open>Inl\<close>; it leaves the parameter and the adapter as they are at the \<^verbatim>\<open>throw\<close>.
\<close>

definition tryPop_ref :: "'a \<Rightarrow> 'a ThreadsafeSTLAdapter \<Rightarrow> bool \<times> 'a \<times> 'a ThreadsafeSTLAdapter" where
  "tryPop_ref v t =
     (if std_empty (m_adapter t) then (False, v, t)
      else (True, deref (objects t) (getCurrent (m_adapter t)), remove_current t))"

text \<open>The overloads that return a handle; \<open>None\<close> is the null handle.\<close>

definition tryPop :: "'a ThreadsafeSTLAdapter \<Rightarrow> handle option \<times> 'a ThreadsafeSTLAdapter" where
  "tryPop t =
     (if std_empty (m_adapter t) then (None, t)
      else (Some (getCurrent (m_adapter t)), remove_current t))"

definition pop_ref :: "'a \<Rightarrow> 'a ThreadsafeSTLAdapter \<Rightarrow> (error + unit) \<times> 'a \<times> 'a ThreadsafeSTLAdapter" where
  "pop_ref v t =
     (if std_empty (m_adapter t) then (Inl EmptyAdapter, v, t)
      else (Inr (), deref (objects t) (getCurrent (m_adapter t)), remove_current t))"

definition pop :: "'a ThreadsafeSTLAdapter \<Rightarrow> (error + handle) \<times> 'a ThreadsafeSTLAdapter" where
  "pop t =
     (if std_empty (m_adapter t) then (Inl EmptyAdapter, t)
      else (Inr (getCurrent (m_adapter t)), remove_current t))"

text \<open>
  \<^verbatim>\<open>waitAndPop\<close> waits on \<^verbatim>\<open>m_condVar\<close> until the adapter is not empty. On an empty
  adapter the caller stays blocked until another thread pushes: the result \<open>None\<close>.
  The overload with an output parameter assigns to it whenever it returns and never reads
  it, so it takes no old contents.
\<close>

definition waitAndPop_ref :: "'a ThreadsafeSTLAdapter \<Rightarrow> ('a \<times> 'a ThreadsafeSTLAdapter) option" where
  "waitAndPop_ref t =
     (if std_empty (m_adapter t) then None
      else Some (deref (objects t) (getCurrent (m_adapter t)), remove_current t))"

definition waitAndPop :: "'a ThreadsafeSTLAdapter \<Rightarrow> (handle \<times> 'a ThreadsafeSTLAdapter) option" where
  "waitAndPop t =
     (if std_empty (m_adapter t) then None
      else Some (getCurrent (m_adapter t), remove_current t))"


text \<open>
  The argument of \<^verbatim>\<open>std::transform\<close> in the factory: every element of the source
  container, first to last, is handed to \<^verbatim>\<open>std::make_shared\<close> and the new handle goes
  to the \<^verbatim>\<open>std::back_inserter\<close> of the handle container.
\<close>

fun transform_make_shared ::
  "'a list \<Rightarrow> handle list \<times> 'a objects \<Rightarrow> handle list \<times> 'a objects" where
  "transform_make_shared [] (out, mem) = (out, mem)"
| "transform_make_shared (item # rest) (out, mem) =
     (let (p, mem') = make_shared item mem in transform_make_shared rest (out @ [p], mem'))"

text \<open>
  \<^verbatim>\<open>createThreadsafeSTLAdapterFrom(const Adapt<...>& adapter, Ts... comparator)\<close>. The pack
  \<^verbatim>\<open>Ts\<close> is deduced from the adapter's type: one comparator for a priority queue, none
  for a queue or a stack. A call with any other pack does not compile: \<open>None\<close>. The
  comparator the source adapter itself holds is not read.
\<close>

fun createThreadsafeSTLAdapterFrom ::
  "('a, 'a \<Rightarrow> 'a \<Rightarrow> bool) Adapt \<Rightarrow> ('a \<Rightarrow> 'a \<Rightarrow> bool) list \<Rightarrow> 'a ThreadsafeSTLAdapter option" where
  "createThreadsafeSTLAdapterFrom (PriorityQueue src_cmp c) [comparator] =
     (let (underlyingSharedPtrContainer, mem) = transform_make_shared c ([], [])
      in Some \<lparr> m_adapter = PriorityQueue (CustomComparator comparator) underlyingSharedPtrContainer,
                 objects = mem \<rparr>)"
| "createThreadsafeSTLAdapterFrom (Queue c) [] =
     (let (underlyingSharedPtrContainer, mem) = transform_make_shared c ([], [])
      in Some \<lparr> m_adapter = Queue underlyingSharedPtrContainer, objects = mem \<rparr>)"
| "createThreadsafeSTLAdapterFrom (Stack c) [] =
     (let (underlyingSharedPtrContainer, mem) = transform_make_shared c ([], [])
      in Some \<lparr> m_adapter = Stack underlyingSharedPtrContainer, objects = mem \<rparr>)"
| "createThreadsafeSTLAdapterFrom adapter comparators = None"

text \<open>
  The overload for an rvalue adapter, \<^verbatim>\<open>createThreadsafeSTLAdapterFrom(Adapt<...>&& adapter,
  Ts... comparator)\<close>, runs \<^verbatim>\<open>std::transform\<close> over the argument's own elements with
  \<^verbatim>\<open>std::make_shared<AdaptElem>(std::move(item))\<close>: the new object takes the element's
  contents and the element stays in the argument, moved from. \<open>moved_from\<close> says what a
  moved-from element holds, which is up to the move constructor of the element type. The
  function returns the new adapter and the argument as the call leaves it.
\<close>

fun transform_make_shared_move ::
  "('a \<Rightarrow> 'a) \<Rightarrow> 'a list \<Rightarrow> handle list \<times> 'a objects \<times> 'a list
     \<Rightarrow> handle list \<times> 'a objects \<times> 'a list" where
  "transform_make_shared_move moved_from [] (out, mem, src) = (out, mem, src)"
| "transform_make_shared_move moved_from (item # rest) (out, mem, src) =
     (let (p, mem') = make_shared item mem
      in transform_make_shared_move moved_from rest (out @ [p], mem', src @ [moved_from item]))"

fun createThreadsafeSTLAdapterFrom_rvalue ::
  "('a \<Rightarrow> 'a) \<Rightarrow> ('a, 'a \<Rightarrow> 'a \<Rightarrow> bool) Adapt \<Rightarrow> ('a \<Rightarrow> 'a \<Rightarrow> bool) list
     \<Rightarrow> ('a ThreadsafeSTLAdapter \<times> ('a, 'a \<Rightarrow> 'a \<Rightarrow> bool) Adapt) option" where
  "createThreadsafeSTLAdapterFrom_rvalue moved_from (PriorityQueue src_cmp c) [comparator] =
     (let (underlyingSharedPtrContainer, mem, underlyingContainer) =
            transform_make_shared_move moved_from c ([], [], [])
      in Some (\<lparr> m_adapter = PriorityQueue (CustomComparator comparator) underlyingSharedPtrContainer,
                   objects = mem \<rparr>,
               PriorityQueue src_cmp underlyingContainer))"
| "createThreadsafeSTLAdapterFrom_rvalue moved_from (Queue c) [] =
     (let (underlyingSharedPtrContainer, mem, underlyingContainer) =
            transform_make_shared_move moved_from c ([], [], [])
      in Some (\<lparr> m_adapter = Queue underlyingSharedPtrContainer, objects = mem \<rparr>,
               Queue underlyingContainer))"
| "createThreadsafeSTLAdapterFrom_rvalue moved_from (Stack c) [] =
     (let (underlyingSharedPtrContainer, mem, underlyingContainer) =
            transform_make_shared_move moved_from c ([], [], [])
      in Some (\<lparr> m_adapter = Stack underlyingSharedPtrContainer, objects = mem \<rparr>,
               Stack underlyingContainer))"
| "createThreadsafeSTLAdapterFrom_rvalue moved_from adapter comparators = None"


section \<open>Specification vocabulary for the adapter\<close>

text \<open>
  A call of the factory that compiles: the comparators are the pack \<^verbatim>\<open>Ts\<close> of the
  adapter's type, one for a priority queue and none for a queue or a stack.
\<close>

definition pack_fits :: "('e, 'cmp) Adapt \<Rightarrow> 'c list \<Rightarrow> bool" where
  "pack_fits adapter comparators =
     (case adapter of
        PriorityQueue src_cmp c \<Rightarrow> length comparators = 1
      | _ \<Rightarrow> comparators = [])"

text \<open>
  The requirement of the standard library on a comparator: a strict weak ordering.
\<close>

definition strict_weak_order :: "('a \<Rightarrow> 'a \<Rightarrow> bool) \<Rightarrow> bool" where
  "strict_weak_order lt =
     ((\<forall>x. \<not> lt x x) \<and> (\<forall>x y z. lt x y \<and> lt y z \<longrightarrow> lt x z)
      \<and> (\<forall>x y z. lt x z \<longrightarrow> lt x y \<or> lt y z))"

text \<open>
  The heap property of \<^verbatim>\<open>std::is_heap\<close> on the first \<open>n\<close> positions: no element is
  less than its parent. The two weaker forms hold while an element is being sifted.
\<close>

definition heap_upto :: "('e \<Rightarrow> 'e \<Rightarrow> bool) \<Rightarrow> 'e list \<Rightarrow> nat \<Rightarrow> bool" where
  "heap_upto lt c n = (\<forall>i. 0 < i \<and> i < n \<longrightarrow> \<not> lt (c ! parent i) (c ! i))"

definition heap_except_up :: "('e \<Rightarrow> 'e \<Rightarrow> bool) \<Rightarrow> 'e list \<Rightarrow> nat \<Rightarrow> bool" where
  "heap_except_up lt c k =
     ((\<forall>i. 0 < i \<and> i < length c \<and> i \<noteq> k \<longrightarrow> \<not> lt (c ! parent i) (c ! i))
    \<and> (\<forall>i. 0 < i \<and> i < length c \<and> parent i = k \<and> 0 < k \<longrightarrow> \<not> lt (c ! parent k) (c ! i)))"

definition heap_except_down :: "('e \<Rightarrow> 'e \<Rightarrow> bool) \<Rightarrow> 'e list \<Rightarrow> nat \<Rightarrow> nat \<Rightarrow> bool" where
  "heap_except_down lt c n k =
     ((\<forall>i. 0 < i \<and> i < n \<and> parent i \<noteq> k \<longrightarrow> \<not> lt (c ! parent i) (c ! i))
    \<and> (\<forall>i. 0 < i \<and> i < n \<and> parent i = k \<and> 0 < k \<longrightarrow> \<not> lt (c ! parent k) (c ! i)))"


definition is_heap :: "('e \<Rightarrow> 'e \<Rightarrow> bool) \<Rightarrow> 'e list \<Rightarrow> bool" where
  "is_heap lt c = list_all (\<lambda>i. \<not> lt (c ! parent i) (c ! i)) [1 ..< length c]"


text \<open>
  One thread using one adapter: a sequence of \<open>push\<close> and \<open>tryPop\<close> calls. \<open>run\<close>
  returns what the \<open>tryPop\<close> calls returned, in order, the caller reading the object of
  each handle it got; \<open>None\<close> is "no value".
\<close>

datatype 'a operation = Push 'a | TryPop

fun run :: "'a operation list \<Rightarrow> 'a ThreadsafeSTLAdapter \<Rightarrow> 'a option list \<times> 'a ThreadsafeSTLAdapter" where
  "run [] t = ([], t)"
| "run (Push v # ops) t = run ops (push v t)"
| "run (TryPop # ops) t =
     (let (res, t') = tryPop t; (outs, t'') = run ops t'
      in (map_option (deref (objects t')) res # outs, t''))"

text \<open>The elements a run popped, and the elements it pushed.\<close>

fun popped :: "'a option list \<Rightarrow> 'a list" where
  "popped [] = []"
| "popped (None # rs) = popped rs"
| "popped (Some v # rs) = v # popped rs"

fun pushed :: "'a operation list \<Rightarrow> 'a list" where
  "pushed [] = []"
| "pushed (Push v # ops) = v # pushed ops"
| "pushed (TryPop # ops) = pushed ops"

text \<open>
  The objects the adapter holds, in the order of its container; whether every handle in
  the container refers to an object of the store; a queue adapter; a priority queue
  adapter whose comparator is \<open>lt\<close> and whose container is a heap for it.
\<close>

definition held :: "'a ThreadsafeSTLAdapter \<Rightarrow> 'a list" where
  "held t = map (deref (objects t)) (getProtectedContainer (m_adapter t))"

definition handles_valid :: "'a ThreadsafeSTLAdapter \<Rightarrow> bool" where
  "handles_valid t = list_all (\<lambda>p. p < length (objects t)) (getProtectedContainer (m_adapter t))"

definition is_fifo :: "'a ThreadsafeSTLAdapter \<Rightarrow> bool" where
  "is_fifo t = (case m_adapter t of Queue hs \<Rightarrow> handles_valid t | _ \<Rightarrow> False)"

definition heap_ordered :: "'a ThreadsafeSTLAdapter \<Rightarrow> ('a \<Rightarrow> 'a \<Rightarrow> bool) \<Rightarrow> bool" where
  "heap_ordered t lt =
     (case m_adapter t of
        PriorityQueue cc hs \<Rightarrow>
          m_comparator cc = lt \<and> is_heap (call_operator (objects t) cc) hs \<and> handles_valid t
      | _ \<Rightarrow> False)"

text \<open>No element is less than one returned before it.\<close>

definition descending :: "('a \<Rightarrow> 'a \<Rightarrow> bool) \<Rightarrow> 'a list \<Rightarrow> bool" where
  "descending lt xs = sorted_wrt (\<lambda>a b. \<not> lt a b) xs"


section \<open>ProducerConsumerBase.h, Producer.h, Consumer.h (namespace concurrency)\<close>

text \<open>
  A controller runs a main thread, which executes \<^verbatim>\<open>mainThreadWork\<close>, and worker
  threads, which execute \<^verbatim>\<open>workerThreadWork\<close>. A thread is at one of the places where
  it can be found between two steps of the model. A worker is at the top of its loop, inside
  the wait on \<^verbatim>\<open>m_workerThreadCondVar\<close>, or gone: \<^verbatim>\<open>workerThreadWork\<close> returned,
  or left it by an exception that the thread's entry function caught. The main thread is
  inside \<^verbatim>\<open>m_commandQueue.waitAndPop\<close>, inside the \<^verbatim>\<open>join\<close> that the command it
  is executing has reached, or gone.
\<close>

datatype Command = EnableWorkerThread | DisableWorkerThread | ShutdownMainThread

datatype worker_pc = LoopTop | InWait | Returned | Threw

datatype main_pc = WaitAndPop | Join Command | JoinReplaced nat | MainReturned

text \<open>
  What the C++ standard gives no meaning to or ends the process with: \<^verbatim>\<open>operator->\<close> on
  a \<^verbatim>\<open>std::unique_ptr\<close> that is null, and the destructor of a joinable \<^verbatim>\<open>std::thread\<close>.
\<close>

datatype fault = NullPointerDereference | Terminate

text \<open>A \<^verbatim>\<open>std::thread\<close> object: the thread it stands for, and whether it was joined.\<close>

record std_thread =
  tid :: nat
  joined :: bool

text \<open>
  The members of \<^verbatim>\<open>ProducerConsumerBase\<close>. \<^verbatim>\<open>m_mainThread\<close> is null (\<open>None\<close>) or owns
  the main thread, given by the place it is at. \<open>worker_threads\<close> are the threads started
  so far to run \<^verbatim>\<open>workerThreadWork\<close>, in the order of their start; \<open>fault\<close> is set once
  the process has left defined behaviour. \<^verbatim>\<open>m_name\<close> is read by the debug output only.
\<close>

record 'a ProducerConsumerBase =
  m_commandQueue :: "Command ThreadsafeSTLAdapter"
  m_mainThread :: "main_pc option"
  m_sharedContainer :: "'a ThreadsafeSTLAdapter"
  m_workerThread :: "std_thread option"
  m_workerThreadEnabled :: bool
  m_isWorkerThreadRunning :: bool
  worker_threads :: "worker_pc list"
  fault :: "fault option"

definition enableWorkerThread ::
  "('a, 'z) ProducerConsumerBase_scheme \<Rightarrow> ('a, 'z) ProducerConsumerBase_scheme" where
  "enableWorkerThread s = s\<lparr> m_commandQueue := pushAndNotify EnableWorkerThread (m_commandQueue s) \<rparr>"

definition disableWorkerThread ::
  "('a, 'z) ProducerConsumerBase_scheme \<Rightarrow> ('a, 'z) ProducerConsumerBase_scheme" where
  "disableWorkerThread s = s\<lparr> m_commandQueue := pushAndNotify DisableWorkerThread (m_commandQueue s) \<rparr>"

text \<open>
  \<^verbatim>\<open>runMainThread\<close>: \<open>thread_starts\<close> says whether the system can start the thread. When
  it cannot, the constructor of \<^verbatim>\<open>std::thread\<close> throws, the handlers catch it, and
  \<^verbatim>\<open>m_mainThread\<close> stays null.
\<close>

definition runMainThread ::
  "bool \<Rightarrow> ('a, 'z) ProducerConsumerBase_scheme \<Rightarrow> ('a, 'z) ProducerConsumerBase_scheme" where
  "runMainThread thread_starts s =
     (if thread_starts then s\<lparr> m_mainThread := Some WaitAndPop \<rparr> else s)"

text \<open>
  \<^verbatim>\<open>shutdownMainThread\<close> up to its \<^verbatim>\<open>join\<close>: the command is pushed, then
  \<^verbatim>\<open>m_mainThread->joinable()\<close> is evaluated. The caller then stays in \<^verbatim>\<open>join\<close> until
  the main thread is gone.
\<close>

definition shutdownMainThread ::
  "('a, 'z) ProducerConsumerBase_scheme \<Rightarrow> ('a, 'z) ProducerConsumerBase_scheme" where
  "shutdownMainThread s =
     (let s1 = s\<lparr> m_commandQueue := pushAndNotify ShutdownMainThread (m_commandQueue s) \<rparr>
      in case m_mainThread s1 of
           None \<Rightarrow> s1\<lparr> fault := Some NullPointerDereference \<rparr>
         | Some pc \<Rightarrow> s1)"

definition shutdownMainThread_returned :: "('a, 'z) ProducerConsumerBase_scheme \<Rightarrow> bool" where
  "shutdownMainThread_returned s = (fault s = None \<and> m_mainThread s = Some MainReturned)"

text \<open>
  Whether a worker thread is still executing \<^verbatim>\<open>workerThreadWork\<close>, and how many are.
\<close>

definition live :: "worker_pc \<Rightarrow> bool" where
  "live pc = (pc = LoopTop \<or> pc = InWait)"

definition live_workers :: "('a, 'z) ProducerConsumerBase_scheme \<Rightarrow> nat" where
  "live_workers s = length (filter live (worker_threads s))"

text \<open>
  The main thread after the command \<open>cmd\<close> is done: \<^verbatim>\<open>ShutdownMainThread\<close> leaves the
  loop by \<^verbatim>\<open>break\<close>, the others return to \<^verbatim>\<open>waitAndPop\<close>.
\<close>

definition command_done ::
  "Command \<Rightarrow> ('a, 'z) ProducerConsumerBase_scheme \<Rightarrow> ('a, 'z) ProducerConsumerBase_scheme" where
  "command_done cmd s =
     s\<lparr> m_mainThread := Some (if cmd = ShutdownMainThread then MainReturned else WaitAndPop) \<rparr>"

text \<open>
  \<^verbatim>\<open>disableWorkerThreadIfEnabled\<close>, called for the command \<open>cmd\<close>, up to its
  \<^verbatim>\<open>join\<close>. The flag is cleared under \<^verbatim>\<open>m_workerThreadMutex\<close>.
\<close>

definition disableWorkerThreadIfEnabled ::
  "Command \<Rightarrow> ('a, 'z) ProducerConsumerBase_scheme \<Rightarrow> ('a, 'z) ProducerConsumerBase_scheme" where
  "disableWorkerThreadIfEnabled cmd s =
     (if m_workerThreadEnabled s then
        (let s1 = s\<lparr> m_workerThreadEnabled := False \<rparr>
         in case m_workerThread s1 of
              None \<Rightarrow> s1\<lparr> fault := Some NullPointerDereference \<rparr>
            | Some th \<Rightarrow>
                if \<not> joined th then s1\<lparr> m_mainThread := Some (Join cmd) \<rparr>
                else command_done cmd s1)
      else command_done cmd s)"

text \<open>
  \<^verbatim>\<open>m_workerThread = std::make_unique<std::thread>(...)\<close>: the new thread starts at the
  top of \<^verbatim>\<open>workerThreadWork\<close>; the assignment destroys the \<^verbatim>\<open>std::thread\<close> that
  \<^verbatim>\<open>m_workerThread\<close> owned before, which ends the process if that one is joinable.
\<close>

definition start_worker_thread ::
  "('a, 'z) ProducerConsumerBase_scheme \<Rightarrow> ('a, 'z) ProducerConsumerBase_scheme" where
  "start_worker_thread s =
     (let s1 = s\<lparr> worker_threads := worker_threads s @ [LoopTop],
                  m_workerThread := Some \<lparr> tid = length (worker_threads s), joined = False \<rparr> \<rparr>
      in case m_workerThread s of
           None \<Rightarrow> s1
         | Some old \<Rightarrow> if joined old then s1 else s1\<lparr> fault := Some Terminate \<rparr>)"

text \<open>
  The thread \<open>th\<close> that a \<^verbatim>\<open>join\<close> waits for is gone.
\<close>

definition thread_gone :: "('a, 'z) ProducerConsumerBase_scheme \<Rightarrow> nat \<Rightarrow> bool" where
  "thread_gone s k = (k < length (worker_threads s) \<and> \<not> live (worker_threads s ! k))"

text \<open>
  One step of the main thread in \<^verbatim>\<open>mainThreadWork\<close>. In \<^verbatim>\<open>waitAndPop\<close> it stays
  blocked while the command queue is empty, and otherwise executes the command it pops up
  to the next place where it can block. \<open>thread_starts\<close> says whether the system can start
  a thread in this step; when it cannot, the exception of the \<^verbatim>\<open>std::thread\<close>
  constructor leaves the loop and is caught by the handlers of \<^verbatim>\<open>mainThreadWork\<close>,
  which returns. In \<^verbatim>\<open>join\<close> it stays blocked until the worker thread is gone.
\<close>

definition mainThreadWork ::
  "bool \<Rightarrow> ('a, 'z) ProducerConsumerBase_scheme \<Rightarrow> ('a, 'z) ProducerConsumerBase_scheme" where
  "mainThreadWork thread_starts s =
     (if fault s \<noteq> None then s
      else case m_mainThread s of
        Some WaitAndPop \<Rightarrow>
          (case waitAndPop_ref (m_commandQueue s) of
             None \<Rightarrow> s
           | Some (currentCommand, q) \<Rightarrow>
               (let s1 = s\<lparr> m_commandQueue := q \<rparr>
                in case currentCommand of
                     EnableWorkerThread \<Rightarrow>
                       if \<not> m_workerThreadEnabled s1 \<and> \<not> m_isWorkerThreadRunning s1 then
                         (let s2 = s1\<lparr> m_workerThreadEnabled := True \<rparr>
                          in if thread_starts then start_worker_thread s2
                             else s2\<lparr> m_mainThread := Some MainReturned \<rparr>)
                       else s1
                   | DisableWorkerThread \<Rightarrow> disableWorkerThreadIfEnabled DisableWorkerThread s1
                   | ShutdownMainThread \<Rightarrow> disableWorkerThreadIfEnabled ShutdownMainThread s1))
      | Some (Join cmd) \<Rightarrow>
          (case m_workerThread s of
             None \<Rightarrow> s
           | Some th \<Rightarrow>
               if thread_gone s (tid th)
               then command_done cmd (s\<lparr> m_workerThread := Some (th\<lparr> joined := True \<rparr>) \<rparr>)
               else s)
      | _ \<Rightarrow> s)"

text \<open>The place of worker thread \<open>k\<close>.\<close>

definition set_pc ::
  "nat \<Rightarrow> worker_pc \<Rightarrow> ('a, 'z) ProducerConsumerBase_scheme \<Rightarrow> ('a, 'z) ProducerConsumerBase_scheme" where
  "set_pc k pc s = s\<lparr> worker_threads := (worker_threads s)[k := pc] \<rparr>"

definition can_step :: "('a, 'z) ProducerConsumerBase_scheme \<Rightarrow> nat \<Rightarrow> bool" where
  "can_step s k = (fault s = None \<and> k < length (worker_threads s) \<and> live (worker_threads s ! k))"

text \<open>
  The class \<^verbatim>\<open>Consumer\<close>. The callable is given by whether its call on an element
  returns (\<open>True\<close>) or throws; \<open>calls\<close> are the elements it was called with, in order.
  \<open>Elem_default\<close> is what the local variable of \<^verbatim>\<open>Elem item;\<close> holds before
  \<^verbatim>\<open>tryPop\<close> assigns to it.
\<close>

record 'a Consumer = "'a ProducerConsumerBase" +
  m_callable :: "'a \<Rightarrow> bool"
  calls :: "'a list"
  Elem_default :: 'a

text \<open>
  One step of worker thread \<open>k\<close> in \<^verbatim>\<open>Consumer::workerThreadWork\<close>: from the top of the
  loop, or from a wake-up inside the wait, to the next wait, the next iteration or the end
  of the thread. The thread holds \<^verbatim>\<open>m_workerThreadMutex\<close> during the whole step, and
  every access of the main thread to the two flags is under that mutex. The wait evaluates
  its predicate, \<^verbatim>\<open>!m_workerThreadEnabled ? true : m_sharedContainer.tryPop(item)\<close>, before
  it blocks and after each wake-up. An exception of the callable leaves
  \<^verbatim>\<open>workerThreadWork\<close>; the entry function of the thread catches it and the thread ends.
\<close>

definition Consumer_workerThreadWork :: "nat \<Rightarrow> 'a Consumer \<Rightarrow> 'a Consumer" where
  "Consumer_workerThreadWork k s =
     (if \<not> can_step s k then s
      else
        (let s1 = (if worker_threads s ! k = LoopTop then s\<lparr> m_isWorkerThreadRunning := True \<rparr> else s);
             (pred, item, q) =
               (if \<not> m_workerThreadEnabled s1 then (True, Elem_default s1, m_sharedContainer s1)
                else tryPop_ref (Elem_default s1) (m_sharedContainer s1));
             s2 = s1\<lparr> m_sharedContainer := q \<rparr>
         in if \<not> pred then set_pc k InWait s2
            else if \<not> m_workerThreadEnabled s2
            then set_pc k Returned (s2\<lparr> m_isWorkerThreadRunning := False \<rparr>)
            else (let s3 = s2\<lparr> calls := calls s2 @ [item] \<rparr>
                  in if m_callable s3 item then set_pc k LoopTop s3 else set_pc k Threw s3)))"

text \<open>
  The class \<^verbatim>\<open>Producer\<close>, and one step of worker thread \<open>k\<close> in
  \<^verbatim>\<open>Producer::workerThreadWork\<close>, which has the loop of the consumer with
  \<^verbatim>\<open>m_vectorItemsQueue.tryPop(vectorItem)\<close> in the predicate and, after the wait, the
  loop that pushes each item of \<^verbatim>\<open>vectorItem\<close> to the shared container.
\<close>

record 'a Producer = "'a ProducerConsumerBase" +
  m_vectorItemsQueue :: "'a list ThreadsafeSTLAdapter"

definition Producer_push :: "'a list \<Rightarrow> 'a Producer \<Rightarrow> 'a Producer" where
  "Producer_push items s = s\<lparr> m_vectorItemsQueue := push items (m_vectorItemsQueue s) \<rparr>"

definition Producer_workerThreadWork :: "nat \<Rightarrow> 'a Producer \<Rightarrow> 'a Producer" where
  "Producer_workerThreadWork k s =
     (if \<not> can_step s k then s
      else
        (let s1 = (if worker_threads s ! k = LoopTop then s\<lparr> m_isWorkerThreadRunning := True \<rparr> else s);
             (pred, vectorItem, q) =
               (if \<not> m_workerThreadEnabled s1 then (True, [], m_vectorItemsQueue s1)
                else tryPop_ref [] (m_vectorItemsQueue s1));
             s2 = s1\<lparr> m_vectorItemsQueue := q \<rparr>
         in if \<not> pred then set_pc k InWait s2
            else if \<not> m_workerThreadEnabled s2
            then set_pc k Returned (s2\<lparr> m_isWorkerThreadRunning := False \<rparr>)
            else set_pc k LoopTop
                   (s2\<lparr> m_sharedContainer := fold push vectorItem (m_sharedContainer s2) \<rparr>)))"

text \<open>
  The constructors: the members as the initialisers leave them, then \<^verbatim>\<open>runMainThread\<close>.
  \<open>thread_starts\<close> and \<open>default_elem\<close> are not arguments of the C++ constructors:
  they say whether the system can start the main thread and what a default-initialised
  \<^verbatim>\<open>Elem\<close> holds.
\<close>

definition Consumer_ctor ::
  "bool \<Rightarrow> 'a \<Rightarrow> 'a ThreadsafeSTLAdapter \<Rightarrow> ('a \<Rightarrow> bool) \<Rightarrow> 'a Consumer" where
  "Consumer_ctor thread_starts default_elem sharedContainer callable =
     runMainThread thread_starts
       \<lparr> m_commandQueue = the (createThreadsafeSTLAdapterFrom (Queue []) []),
         m_mainThread = None,
         m_sharedContainer = sharedContainer,
         m_workerThread = None,
         m_workerThreadEnabled = False,
         m_isWorkerThreadRunning = False,
         worker_threads = [],
         fault = None,
         m_callable = callable,
         calls = [],
         Elem_default = default_elem \<rparr>"

definition Producer_ctor :: "bool \<Rightarrow> 'a ThreadsafeSTLAdapter \<Rightarrow> 'a Producer" where
  "Producer_ctor thread_starts sharedContainer =
     runMainThread thread_starts
       \<lparr> m_commandQueue = the (createThreadsafeSTLAdapterFrom (Queue []) []),
         m_mainThread = None,
         m_sharedContainer = sharedContainer,
         m_workerThread = None,
         m_workerThreadEnabled = False,
         m_isWorkerThreadRunning = False,
         worker_threads = [],
         fault = None,
         m_vectorItemsQueue = the (createThreadsafeSTLAdapterFrom (Queue []) []) \<rparr>"

text \<open>
  What can happen to a controller, one event at a time: a call of a public member function
  from outside, the call of \<^verbatim>\<open>shutdownMainThread\<close> by the destructor, a push to the
  shared container by another of its users, a step of the main thread, a step of a worker
  thread.
\<close>

datatype 'x event =
    Call_enableWorkerThread
  | Call_disableWorkerThread
  | Call_shutdownMainThread
  | Call_push 'x
  | MainThread bool
  | WorkerThread nat

fun Consumer_event :: "'a event \<Rightarrow> 'a Consumer \<Rightarrow> 'a Consumer" where
  "Consumer_event Call_enableWorkerThread s = enableWorkerThread s"
| "Consumer_event Call_disableWorkerThread s = disableWorkerThread s"
| "Consumer_event Call_shutdownMainThread s = shutdownMainThread s"
| "Consumer_event (Call_push x) s = s\<lparr> m_sharedContainer := push x (m_sharedContainer s) \<rparr>"
| "Consumer_event (MainThread thread_starts) s = mainThreadWork thread_starts s"
| "Consumer_event (WorkerThread k) s = Consumer_workerThreadWork k s"

fun Producer_event :: "'a list event \<Rightarrow> 'a Producer \<Rightarrow> 'a Producer" where
  "Producer_event Call_enableWorkerThread s = enableWorkerThread s"
| "Producer_event Call_disableWorkerThread s = disableWorkerThread s"
| "Producer_event Call_shutdownMainThread s = shutdownMainThread s"
| "Producer_event (Call_push items) s = Producer_push items s"
| "Producer_event (MainThread thread_starts) s = mainThreadWork thread_starts s"
| "Producer_event (WorkerThread k) s = Producer_workerThreadWork k s"

section \<open>The same classes in namespace mt\<close>

text \<open>
  The second variant of the three headers differs in the worker loops, which poll instead
  of waiting, and in the main thread. Its adapter (\<^verbatim>\<open>ThreadSafeSTLAdapter\<close>) has the
  member functions of the first variant, statement for statement. The classes have no
  \<^verbatim>\<open>m_isWorkerThreadRunning\<close> and no condition variable: the field of the record stays
  \<open>False\<close>. \<^verbatim>\<open>m_workerThreadEnabled\<close> is atomic, and the threads are
  \<^verbatim>\<open>std::jthread\<close>s, whose destructor joins where that of \<^verbatim>\<open>std::thread\<close> ends the
  process.
\<close>

text \<open>\<^verbatim>\<open>interruptWorkerThread\<close>, called for the command \<open>cmd\<close>, up to its \<^verbatim>\<open>join\<close>.\<close>

definition mt_interruptWorkerThread ::
  "Command \<Rightarrow> ('a, 'z) ProducerConsumerBase_scheme \<Rightarrow> ('a, 'z) ProducerConsumerBase_scheme" where
  "mt_interruptWorkerThread cmd s =
     (let s1 = s\<lparr> m_workerThreadEnabled := False \<rparr>
      in case m_workerThread s1 of
           None \<Rightarrow> s1\<lparr> fault := Some NullPointerDereference \<rparr>
         | Some th \<Rightarrow>
             if \<not> joined th then s1\<lparr> m_mainThread := Some (Join cmd) \<rparr>
             else command_done cmd s1)"

text \<open>
  \<^verbatim>\<open>m_workerThread = std::make_unique<std::jthread>(...)\<close>: the new thread is started,
  then the assignment destroys the \<^verbatim>\<open>std::jthread\<close> owned before, and the destructor of
  one that is joinable joins it.
\<close>

definition mt_start_worker_thread ::
  "('a, 'z) ProducerConsumerBase_scheme \<Rightarrow> ('a, 'z) ProducerConsumerBase_scheme" where
  "mt_start_worker_thread s =
     (let s1 = s\<lparr> worker_threads := worker_threads s @ [LoopTop],
                  m_workerThread := Some \<lparr> tid = length (worker_threads s), joined = False \<rparr> \<rparr>
      in case m_workerThread s of
           None \<Rightarrow> s1
         | Some old \<Rightarrow> if joined old then s1 else s1\<lparr> m_mainThread := Some (JoinReplaced (tid old)) \<rparr>)"

definition mt_mainThreadWork ::
  "bool \<Rightarrow> ('a, 'z) ProducerConsumerBase_scheme \<Rightarrow> ('a, 'z) ProducerConsumerBase_scheme" where
  "mt_mainThreadWork thread_starts s =
     (if fault s \<noteq> None then s
      else case m_mainThread s of
        Some WaitAndPop \<Rightarrow>
          (case waitAndPop_ref (m_commandQueue s) of
             None \<Rightarrow> s
           | Some (currentCommand, q) \<Rightarrow>
               (let s1 = s\<lparr> m_commandQueue := q \<rparr>
                in case currentCommand of
                     EnableWorkerThread \<Rightarrow>
                       if \<not> m_workerThreadEnabled s1 then
                         (let s2 = s1\<lparr> m_workerThreadEnabled := True \<rparr>
                          in if thread_starts then mt_start_worker_thread s2
                             else s2\<lparr> m_mainThread := Some MainReturned \<rparr>)
                       else s1
                   | DisableWorkerThread \<Rightarrow> mt_interruptWorkerThread DisableWorkerThread s1
                   | ShutdownMainThread \<Rightarrow> mt_interruptWorkerThread ShutdownMainThread s1))
      | Some (Join cmd) \<Rightarrow>
          (case m_workerThread s of
             None \<Rightarrow> s
           | Some th \<Rightarrow>
               if thread_gone s (tid th)
               then command_done cmd (s\<lparr> m_workerThread := Some (th\<lparr> joined := True \<rparr>) \<rparr>)
               else s)
      | Some (JoinReplaced old) \<Rightarrow>
          if thread_gone s old then s\<lparr> m_mainThread := Some WaitAndPop \<rparr> else s
      | _ \<Rightarrow> s)"

text \<open>
  One iteration of \<^verbatim>\<open>while (m_workerThreadEnabled)\<close> in the worker loops, the test
  included. (The worker takes no mutex; between its test and its body the main thread can
  only clear the flag and start to wait for the worker, so a test that is split from the body
  lets one more iteration run before the \<^verbatim>\<open>join\<close> returns.) An iteration that pops
  nothing yields.
\<close>

definition mt_Consumer_workerThreadWork :: "nat \<Rightarrow> 'a Consumer \<Rightarrow> 'a Consumer" where
  "mt_Consumer_workerThreadWork k s =
     (if \<not> can_step s k then s
      else if \<not> m_workerThreadEnabled s then set_pc k Returned s
      else
        (let (popped_one, item, q) = tryPop_ref (Elem_default s) (m_sharedContainer s);
             s1 = s\<lparr> m_sharedContainer := q \<rparr>
         in if popped_one then
              (let s2 = s1\<lparr> calls := calls s1 @ [item] \<rparr>
               in if m_callable s2 item then set_pc k LoopTop s2 else set_pc k Threw s2)
            else set_pc k LoopTop s1))"

definition mt_Producer_workerThreadWork :: "nat \<Rightarrow> 'a Producer \<Rightarrow> 'a Producer" where
  "mt_Producer_workerThreadWork k s =
     (if \<not> can_step s k then s
      else if \<not> m_workerThreadEnabled s then set_pc k Returned s
      else
        (let (popped_one, vectorItem, q) = tryPop_ref [] (m_vectorItemsQueue s);
             s1 = s\<lparr> m_vectorItemsQueue := q \<rparr>
         in if popped_one
            then set_pc k LoopTop
                   (s1\<lparr> m_sharedContainer := fold push vectorItem (m_sharedContainer s1) \<rparr>)
            else set_pc k LoopTop s1))"

fun mt_Consumer_event :: "'a event \<Rightarrow> 'a Consumer \<Rightarrow> 'a Consumer" where
  "mt_Consumer_event Call_enableWorkerThread s = enableWorkerThread s"
| "mt_Consumer_event Call_disableWorkerThread s = disableWorkerThread s"
| "mt_Consumer_event Call_shutdownMainThread s = shutdownMainThread s"
| "mt_Consumer_event (Call_push x) s = s\<lparr> m_sharedContainer := push x (m_sharedContainer s) \<rparr>"
| "mt_Consumer_event (MainThread thread_starts) s = mt_mainThreadWork thread_starts s"
| "mt_Consumer_event (WorkerThread k) s = mt_Consumer_workerThreadWork k s"

fun mt_Producer_event :: "'a list event \<Rightarrow> 'a Producer \<Rightarrow> 'a Producer" where
  "mt_Producer_event Call_enableWorkerThread s = enableWorkerThread s"
| "mt_Producer_event Call_disableWorkerThread s = disableWorkerThread s"
| "mt_Producer_event Call_shutdownMainThread s = shutdownMainThread s"
| "mt_Producer_event (Call_push items) s = Producer_push items s"
| "mt_Producer_event (MainThread thread_starts) s = mt_mainThreadWork thread_starts s"
| "mt_Producer_event (WorkerThread k) s = mt_Producer_workerThreadWork k s"

section \<open>A producer and a consumer on one container\<close>

text \<open>
  Both classes keep the shared container by reference (\<^verbatim>\<open>Adapter& m_sharedContainer\<close>),
  and \<^verbatim>\<open>main.cpp\<close> constructs a producer and a consumer on the same adapter. In a
  system of the two the container is the field of both records: an event of one controller
  is followed by the copy of its container to the other. Each controller has its own
  threads, mutex and condition variable, so nothing else is shared.
\<close>

datatype 'a system_event = Producer_does "'a list event" | Consumer_does "'a event"

definition System_ctor ::
  "bool \<Rightarrow> 'a \<Rightarrow> 'a ThreadsafeSTLAdapter \<Rightarrow> ('a \<Rightarrow> bool) \<Rightarrow> 'a Producer \<times> 'a Consumer" where
  "System_ctor thread_starts default_elem sharedContainer callable =
     (Producer_ctor thread_starts sharedContainer,
      Consumer_ctor thread_starts default_elem sharedContainer callable)"

fun System_event :: "'a system_event \<Rightarrow> 'a Producer \<times> 'a Consumer \<Rightarrow> 'a Producer \<times> 'a Consumer" where
  "System_event (Producer_does e) (p, c) =
     (let p' = Producer_event e p in (p', c\<lparr> m_sharedContainer := m_sharedContainer p' \<rparr>))"
| "System_event (Consumer_does e) (p, c) =
     (let c' = Consumer_event e c in (p\<lparr> m_sharedContainer := m_sharedContainer c' \<rparr>, c'))"

fun mt_System_event :: "'a system_event \<Rightarrow> 'a Producer \<times> 'a Consumer \<Rightarrow> 'a Producer \<times> 'a Consumer" where
  "mt_System_event (Producer_does e) (p, c) =
     (let p' = mt_Producer_event e p in (p', c\<lparr> m_sharedContainer := m_sharedContainer p' \<rparr>))"
| "mt_System_event (Consumer_does e) (p, c) =
     (let c' = mt_Consumer_event e c in (p\<lparr> m_sharedContainer := m_sharedContainer c' \<rparr>, c'))"

section \<open>Specification vocabulary for the controller\<close>

text \<open>
  What holds of the threads in every state a controller reaches. A worker thread that is
  still running is the one \<^verbatim>\<open>m_workerThread\<close> owns, not yet joined. The thread that
  \<^verbatim>\<open>m_workerThread\<close> owns was started. While the main thread waits for a command, the
  worker thread flag is set exactly if \<^verbatim>\<open>m_workerThread\<close> owns a thread that was not
  joined; while it waits in a \<^verbatim>\<open>join\<close> the flag is clear and the thread not joined.
\<close>

definition inv_live :: "('a, 'z) ProducerConsumerBase_scheme \<Rightarrow> bool" where
  "inv_live s =
     (\<forall>k < length (worker_threads s). live (worker_threads s ! k) \<longrightarrow>
         m_workerThread s = Some \<lparr> tid = k, joined = False \<rparr>)"

definition inv_tid :: "('a, 'z) ProducerConsumerBase_scheme \<Rightarrow> bool" where
  "inv_tid s = (\<forall>th. m_workerThread s = Some th \<longrightarrow> tid th < length (worker_threads s))"

definition inv_main :: "('a, 'z) ProducerConsumerBase_scheme \<Rightarrow> bool" where
  "inv_main s =
     ((m_mainThread s = Some WaitAndPop \<longrightarrow>
        (if m_workerThreadEnabled s then \<exists>k. m_workerThread s = Some \<lparr> tid = k, joined = False \<rparr>
         else \<forall>th. m_workerThread s = Some th \<longrightarrow> joined th))
    \<and> (\<forall>cmd. m_mainThread s = Some (Join cmd) \<longrightarrow>
          \<not> m_workerThreadEnabled s \<and> (\<exists>k. m_workerThread s = Some \<lparr> tid = k, joined = False \<rparr>))
    \<and> (\<forall>old. m_mainThread s \<noteq> Some (JoinReplaced old)))"

definition base_inv :: "('a, 'z) ProducerConsumerBase_scheme \<Rightarrow> bool" where
  "base_inv s = (inv_live s \<and> inv_tid s \<and> (fault s = None \<longrightarrow> inv_main s))"

text \<open>
  What holds of \<^verbatim>\<open>m_mainThread\<close> in the first variant: it is null exactly if the
  constructor could not start the main thread, and only then can a run reach a fault, the
  null dereference.
\<close>

definition inv_fault :: "bool \<Rightarrow> ('a, 'z) ProducerConsumerBase_scheme \<Rightarrow> bool" where
  "inv_fault thread_started s =
     (((m_mainThread s = None) = (\<not> thread_started))
      \<and> (fault s = None \<or> (\<not> thread_started \<and> fault s = Some NullPointerDereference)))"


subsection \<open>Enable, push, Disable, Enable\<close>

text \<open>
  The scenario of a controller that is enabled, receives pushes, is disabled and is enabled
  again, under every interleaving with the steps of its threads. \<open>track\<close> follows
  one event: the state is the number of the calls of \<^verbatim>\<open>enableWorkerThread\<close> and
  \<^verbatim>\<open>disableWorkerThread\<close> made so far and the arguments of the pushes, in order. A
  call out of turn, the destruction of the controller, or a thread that the system cannot
  start, is not part of the scenario.
  \<open>script\<close> follows a list of events.
\<close>

fun track :: "'x event \<Rightarrow> nat \<times> 'x list \<Rightarrow> (nat \<times> 'x list) option" where
  "track Call_enableWorkerThread (c, ps) = (if c = 0 \<or> c = 2 then Some (Suc c, ps) else None)"
| "track Call_disableWorkerThread (c, ps) = (if c = 1 then Some (2, ps) else None)"
| "track Call_shutdownMainThread (c, ps) = None"
| "track (Call_push x) (c, ps) = (if c = 1 then Some (1, ps @ [x]) else None)"
| "track (MainThread thread_starts) (c, ps) = (if thread_starts then Some (c, ps) else None)"
| "track (WorkerThread k) (c, ps) = Some (c, ps)"

fun script :: "'x event list \<Rightarrow> nat \<times> 'x list \<Rightarrow> (nat \<times> 'x list) option" where
  "script [] st = Some st"
| "script (e # es) st = (case track e st of None \<Rightarrow> None | Some st' \<Rightarrow> script es st')"

text \<open>The events of each controller in a run of a system of two.\<close>

fun producer_events :: "'a system_event list \<Rightarrow> 'a list event list" where
  "producer_events [] = []"
| "producer_events (Producer_does e # es) = e # producer_events es"
| "producer_events (Consumer_does e # es) = producer_events es"

fun consumer_events :: "'a system_event list \<Rightarrow> 'a event list" where
  "consumer_events [] = []"
| "consumer_events (Producer_does e # es) = consumer_events es"
| "consumer_events (Consumer_does e # es) = e # consumer_events es"

text \<open>
  The commands of the scenario, what is left of them in the command queue, and a controller
  at rest: the main thread waits for a command, none is queued and no worker thread is
  about to evaluate the predicate of its wait. A worker thread inside the wait leaves it
  when \<^verbatim>\<open>m_workerThreadCondVar\<close> is notified, which only
  \<^verbatim>\<open>disableWorkerThreadIfEnabled\<close> does, or when the system wakes it for no reason: a
  controller at rest has no thread that is sure to run before the next command.
\<close>

definition lifecycle :: "Command list" where
  "lifecycle = [EnableWorkerThread, DisableWorkerThread, EnableWorkerThread]"

definition pending :: "('a, 'z) ProducerConsumerBase_scheme \<Rightarrow> Command list" where
  "pending s = held (m_commandQueue s)"

definition at_rest :: "('a, 'z) ProducerConsumerBase_scheme \<Rightarrow> bool" where
  "at_rest s = (fault s = None \<and> m_mainThread s = Some WaitAndPop \<and> pending s = []
                \<and> LoopTop \<notin> set (worker_threads s))"

text \<open>
  A schedule that lets the controller come to rest: the main thread and the first worker
  thread get the steps that the three commands can need, then the second worker thread runs
  \<open>n + 1\<close> times.
\<close>

definition settle :: "nat \<Rightarrow> 'x event list" where
  "settle n = [MainThread True, MainThread True, WorkerThread 0, MainThread True, MainThread True]
              @ replicate (Suc n) (WorkerThread 1)"

text \<open>
  How far the main thread has come in the scenario, and what holds of the threads and
  flags there: no command executed; the first \<^verbatim>\<open>EnableWorkerThread\<close> executed;
  inside the \<^verbatim>\<open>join\<close> of \<^verbatim>\<open>DisableWorkerThread\<close>; that command done; the
  second \<^verbatim>\<open>EnableWorkerThread\<close> executed. \<open>src_empty\<close> says whether the container
  the worker thread pops from is empty: the second worker thread starts after the last
  push, so it waits only when nothing is left.
\<close>

datatype stage = Fresh | Enabled1 | Disabling | Disabled | Enabled2

fun popped_commands :: "stage \<Rightarrow> nat" where
  "popped_commands Fresh = 0"
| "popped_commands Enabled1 = 1"
| "popped_commands Disabling = 2"
| "popped_commands Disabled = 2"
| "popped_commands Enabled2 = 3"

fun in_stage :: "stage \<Rightarrow> bool \<Rightarrow> ('a, 'z) ProducerConsumerBase_scheme \<Rightarrow> bool" where
  "in_stage Fresh src_empty s =
     (m_mainThread s = Some WaitAndPop \<and> \<not> m_workerThreadEnabled s \<and> \<not> m_isWorkerThreadRunning s
      \<and> worker_threads s = [] \<and> m_workerThread s = None)"
| "in_stage Enabled1 src_empty s =
     (m_mainThread s = Some WaitAndPop \<and> m_workerThreadEnabled s
      \<and> (\<exists>w. worker_threads s = [w] \<and> live w)
      \<and> m_workerThread s = Some \<lparr> tid = 0, joined = False \<rparr>)"
| "in_stage Disabling src_empty s =
     (m_mainThread s = Some (Join DisableWorkerThread) \<and> \<not> m_workerThreadEnabled s
      \<and> (\<exists>w. worker_threads s = [w] \<and> w \<noteq> Threw \<and> (w = Returned \<longrightarrow> \<not> m_isWorkerThreadRunning s))
      \<and> m_workerThread s = Some \<lparr> tid = 0, joined = False \<rparr>)"
| "in_stage Disabled src_empty s =
     (m_mainThread s = Some WaitAndPop \<and> \<not> m_workerThreadEnabled s \<and> \<not> m_isWorkerThreadRunning s
      \<and> worker_threads s = [Returned]
      \<and> m_workerThread s = Some \<lparr> tid = 0, joined = True \<rparr>)"
| "in_stage Enabled2 src_empty s =
     (m_mainThread s = Some WaitAndPop \<and> m_workerThreadEnabled s
      \<and> (\<exists>w. worker_threads s = [Returned, w] \<and> live w \<and> (w = InWait \<longrightarrow> src_empty))
      \<and> m_workerThread s = Some \<lparr> tid = 1, joined = False \<rparr>)"

definition ctl_inv :: "nat \<Rightarrow> stage \<Rightarrow> bool \<Rightarrow> ('a, 'z) ProducerConsumerBase_scheme \<Rightarrow> bool" where
  "ctl_inv c st src_empty s =
     (fault s = None \<and> is_fifo (m_commandQueue s) \<and> c \<le> 3 \<and> popped_commands st \<le> c
      \<and> pending s = drop (popped_commands st) (take c lifecycle)
      \<and> in_stage st src_empty s)"

text \<open>The order of the stages.\<close>

fun rank :: "stage \<Rightarrow> nat" where
  "rank Fresh = 0"
| "rank Enabled1 = 1"
| "rank Disabling = 2"
| "rank Disabled = 3"
| "rank Enabled2 = 4"

text \<open>
  What holds of the data of a consumer: with \<open>xs\<close> the elements that came into the
  shared container, each of them was passed to the callable or is still in the container,
  once; for a queue (\<open>ordered\<close>), those passed followed by those held are \<open>xs\<close>.
  The callable throws on no element.
\<close>

definition Consumer_data :: "bool \<Rightarrow> 'a list \<Rightarrow> 'a Consumer \<Rightarrow> bool" where
  "Consumer_data ordered xs s =
     (handles_valid (m_sharedContainer s) \<and> (\<forall>x. m_callable s x)
      \<and> mset (calls s) + mset (held (m_sharedContainer s)) = mset xs
      \<and> (ordered \<longrightarrow> is_fifo (m_sharedContainer s) \<and> calls s @ held (m_sharedContainer s) = xs))"

definition Consumer_inv :: "nat \<Rightarrow> bool \<Rightarrow> 'a list \<Rightarrow> 'a Consumer \<Rightarrow> bool" where
  "Consumer_inv c ordered xs s =
     ((\<exists>st. ctl_inv c st (held (m_sharedContainer s) = []) s) \<and> Consumer_data ordered xs s)"

text \<open>
  What holds of the data of a producer: with \<open>xs\<close> the batches that were pushed, the
  shared container is the one the producer was given with the items of the first batches
  pushed to it in order, and the other batches are in \<^verbatim>\<open>m_vectorItemsQueue\<close>, in order.
\<close>

definition Producer_data :: "'a ThreadsafeSTLAdapter \<Rightarrow> 'a list list \<Rightarrow> 'a Producer \<Rightarrow> bool" where
  "Producer_data sc xs s =
     (is_fifo (m_vectorItemsQueue s)
      \<and> (\<exists>ds. m_sharedContainer s = fold push (concat ds) sc
               \<and> ds @ held (m_vectorItemsQueue s) = xs))"

definition Producer_inv :: "nat \<Rightarrow> 'a ThreadsafeSTLAdapter \<Rightarrow> 'a list list \<Rightarrow> 'a Producer \<Rightarrow> bool" where
  "Producer_inv c sc xs s =
     ((\<exists>st. ctl_inv c st (held (m_vectorItemsQueue s) = []) s) \<and> Producer_data sc xs s)"


text \<open>
  Two runs of the scenario. In the first a producer and a consumer on one container get
  the calls of \<^verbatim>\<open>main.cpp\<close>, in its order: both are enabled, a batch is pushed to the
  producer, both are disabled and both are enabled again; the threads run so that the
  second worker thread of the consumer reaches its wait before that of the producer
  forwards the batch. In the second a consumer gets two elements, and its worker thread one
  step, between Enable and Disable.
\<close>

definition missed_wakeup_schedule :: "int system_event list" where
  "missed_wakeup_schedule =
     [Producer_does Call_enableWorkerThread, Consumer_does Call_enableWorkerThread,
      Producer_does (MainThread True), Consumer_does (MainThread True),
      Producer_does (Call_push [7]),
      Producer_does Call_disableWorkerThread, Consumer_does Call_disableWorkerThread,
      Producer_does (MainThread True), Consumer_does (MainThread True),
      Producer_does (WorkerThread 0), Consumer_does (WorkerThread 0),
      Producer_does (MainThread True), Consumer_does (MainThread True),
      Producer_does Call_enableWorkerThread, Consumer_does Call_enableWorkerThread,
      Consumer_does (MainThread True), Consumer_does (WorkerThread 1),
      Producer_does (MainThread True), Producer_does (WorkerThread 1),
      Producer_does (WorkerThread 1)]"

definition stale_flag_events :: "int event list" where
  "stale_flag_events =
     [Call_enableWorkerThread, MainThread True, Call_push 1, Call_push 2, WorkerThread 0,
      Call_disableWorkerThread, MainThread True, MainThread True,
      Call_enableWorkerThread, MainThread True, WorkerThread 1, WorkerThread 1]"


section \<open>Properties of the adapter\<close>

subsection \<open>The factory\<close>

lemma transform_make_shared_eq:
  "transform_make_shared c (out, mem) =
     (out @ [length mem ..< length mem + length c], mem @ c)"
proof (induction c arbitrary: out mem)
  case Nil
  then show ?case by simp
next
  case (Cons a c)
  have "[length mem ..< length mem + length (a # c)] =
          length mem # [Suc (length mem) ..< Suc (length mem) + length c]"
    by (subst upt_rec) simp
  with Cons show ?case by (simp add: make_shared_def)
qed

lemma factory_Queue:
  "createThreadsafeSTLAdapterFrom (Queue c) [] =
     Some \<lparr> m_adapter = Queue [0 ..< length c], objects = c \<rparr>"
  by (simp add: transform_make_shared_eq)

lemma factory_Stack:
  "createThreadsafeSTLAdapterFrom (Stack c) [] =
     Some \<lparr> m_adapter = Stack [0 ..< length c], objects = c \<rparr>"
  by (simp add: transform_make_shared_eq)

lemma factory_PriorityQueue:
  "createThreadsafeSTLAdapterFrom (PriorityQueue src_cmp c) [comparator] =
     Some \<lparr> m_adapter = PriorityQueue (CustomComparator comparator) [0 ..< length c],
            objects = c \<rparr>"
  by (simp add: transform_make_shared_eq)

lemma transform_make_shared_move_eq:
  "transform_make_shared_move moved_from c (out, mem, src) =
     (out @ [length mem ..< length mem + length c], mem @ c, src @ map moved_from c)"
proof (induction c arbitrary: out mem src)
  case Nil
  then show ?case by simp
next
  case (Cons a c)
  have "[length mem ..< length mem + length (a # c)] =
          length mem # [Suc (length mem) ..< Suc (length mem) + length c]"
    by (subst upt_rec) simp
  with Cons show ?case by (simp add: make_shared_def)
qed

lemma factory_rvalue:
  "createThreadsafeSTLAdapterFrom_rvalue moved_from (Queue c) [] =
     Some (\<lparr> m_adapter = Queue [0 ..< length c], objects = c \<rparr>, Queue (map moved_from c))"
  "createThreadsafeSTLAdapterFrom_rvalue moved_from (Stack c) [] =
     Some (\<lparr> m_adapter = Stack [0 ..< length c], objects = c \<rparr>, Stack (map moved_from c))"
  "createThreadsafeSTLAdapterFrom_rvalue moved_from (PriorityQueue src_cmp c) [comparator] =
     Some (\<lparr> m_adapter = PriorityQueue (CustomComparator comparator) [0 ..< length c],
             objects = c \<rparr>, PriorityQueue src_cmp (map moved_from c))"
  by (simp_all add: transform_make_shared_move_eq)

text \<open>
  C8. A call of the factory that compiles returns an adapter, for a queue, a stack and a
  priority queue alike, and the adapter holds one handle per element of the source
  container. The handles are pairwise different, each was allocated by the call (the store
  of the new adapter holds exactly these objects), the object of the \<open>i\<close>-th handle is
  the \<open>i\<close>-th element of the source container, so the order is the source's. The overload
  for rvalues returns the same adapter, built from the elements' contents, and leaves the
  source with as many elements, each moved from. The new adapter is of the kind of the
  source; for a priority queue its comparator is the caller's comparator wrapped in
  \<open>CustomComparator\<close>: called on two handles it is the caller's comparator on the objects
  they own.
\<close>

theorem factory_wraps_every_element:
  assumes "pack_fits adapter comparators"
  shows "\<exists>t source.
           createThreadsafeSTLAdapterFrom adapter comparators = Some t
         \<and> createThreadsafeSTLAdapterFrom_rvalue moved_from adapter comparators = Some (t, source)
         \<and> getProtectedContainer source = map moved_from (getProtectedContainer adapter)
         \<and> length (getProtectedContainer (m_adapter t)) = length (getProtectedContainer adapter)
         \<and> distinct (getProtectedContainer (m_adapter t))
         \<and> set (getProtectedContainer (m_adapter t)) = {0 ..< length (objects t)}
         \<and> length (objects t) = length (getProtectedContainer adapter)
         \<and> map (deref (objects t)) (getProtectedContainer (m_adapter t)) = getProtectedContainer adapter
         \<and> (case adapter of
              Queue c \<Rightarrow> (\<exists>hs. m_adapter t = Queue hs) \<and> (\<exists>c'. source = Queue c')
            | Stack c \<Rightarrow> (\<exists>hs. m_adapter t = Stack hs) \<and> (\<exists>c'. source = Stack c')
            | PriorityQueue src_cmp c \<Rightarrow>
                (\<exists>comparator hs. comparators = [comparator]
                   \<and> m_adapter t = PriorityQueue (CustomComparator comparator) hs
                   \<and> (\<forall>x y. call_operator (objects t) (CustomComparator comparator) x y
                              = comparator (deref (objects t) x) (deref (objects t) y)))
                \<and> (\<exists>c'. source = PriorityQueue src_cmp c'))"
proof -
  have m: "map (deref c) [0 ..< length c] = c" for c :: "'a list"
    by (simp add: deref_def[abs_def] map_nth)
  show ?thesis
  proof (cases adapter)
    case (Queue c)
    with assms have "comparators = []" by (simp add: pack_fits_def)
    with Queue show ?thesis
      by (simp add: factory_Queue factory_rvalue m del: createThreadsafeSTLAdapterFrom.simps
            createThreadsafeSTLAdapterFrom_rvalue.simps)
  next
    case (Stack c)
    with assms have "comparators = []" by (simp add: pack_fits_def)
    with Stack show ?thesis
      by (simp add: factory_Stack factory_rvalue m del: createThreadsafeSTLAdapterFrom.simps
            createThreadsafeSTLAdapterFrom_rvalue.simps)
  next
    case (PriorityQueue src_cmp c)
    with assms obtain comparator where "comparators = [comparator]"
      by (cases comparators) (simp_all add: pack_fits_def)
    with PriorityQueue show ?thesis
      by (simp add: factory_PriorityQueue factory_rvalue m call_operator_def
            del: createThreadsafeSTLAdapterFrom.simps createThreadsafeSTLAdapterFrom_rvalue.simps)
  qed
qed

theorem factory_wraps_every_element_witness:
  "pack_fits (Queue [5, 1, 3 :: int]) ([] :: (int \<Rightarrow> int \<Rightarrow> bool) list)
 \<and> pack_fits (Stack [5, 1, 3 :: int]) ([] :: (int \<Rightarrow> int \<Rightarrow> bool) list)
 \<and> pack_fits (PriorityQueue (<) [5, 1, 3 :: int]) [(<) :: int \<Rightarrow> int \<Rightarrow> bool]
 \<and> createThreadsafeSTLAdapterFrom (Queue [5, 1, 3 :: int]) [] =
     Some \<lparr> m_adapter = Queue [0, 1, 2], objects = [5, 1, 3] \<rparr>
 \<and> createThreadsafeSTLAdapterFrom (Stack [5, 1, 3 :: int]) [] =
     Some \<lparr> m_adapter = Stack [0, 1, 2], objects = [5, 1, 3] \<rparr>
 \<and> createThreadsafeSTLAdapterFrom (PriorityQueue (<) [5, 1, 3 :: int]) [(<)] =
     Some \<lparr> m_adapter = PriorityQueue (CustomComparator (<)) [0, 1, 2], objects = [5, 1, 3] \<rparr>
 \<and> createThreadsafeSTLAdapterFrom_rvalue (\<lambda>x. 0) (Queue [5, 1, 3 :: int]) [] =
     Some (\<lparr> m_adapter = Queue [0, 1, 2], objects = [5, 1, 3] \<rparr>, Queue [0, 0, 0])
 \<and> createThreadsafeSTLAdapterFrom_rvalue (\<lambda>x. 0) (Stack [5, 1, 3 :: int]) [] =
     Some (\<lparr> m_adapter = Stack [0, 1, 2], objects = [5, 1, 3] \<rparr>, Stack [0, 0, 0])
 \<and> createThreadsafeSTLAdapterFrom_rvalue (\<lambda>x. 0) (PriorityQueue (<) [5, 1, 3 :: int]) [(<)] =
     Some (\<lparr> m_adapter = PriorityQueue (CustomComparator (<)) [0, 1, 2], objects = [5, 1, 3] \<rparr>,
           PriorityQueue (<) [0, 0, 0])
 \<and> map (deref [5, 1, 3 :: int]) [0, 1, 2] = [5, 1, 3]
 \<and> distinct [0, 1, 2 :: nat]"
proof -
  have q: "pack_fits (Queue [5, 1, 3 :: int]) ([] :: (int \<Rightarrow> int \<Rightarrow> bool) list)"
    and s: "pack_fits (Stack [5, 1, 3 :: int]) ([] :: (int \<Rightarrow> int \<Rightarrow> bool) list)"
    and p: "pack_fits (PriorityQueue (<) [5, 1, 3 :: int]) [(<) :: int \<Rightarrow> int \<Rightarrow> bool]"
    by (simp_all add: pack_fits_def)
  have e: "createThreadsafeSTLAdapterFrom (Queue [5, 1, 3 :: int]) [] =
       Some \<lparr> m_adapter = Queue [0, 1, 2], objects = [5, 1, 3] \<rparr>"
    "createThreadsafeSTLAdapterFrom (Stack [5, 1, 3 :: int]) [] =
       Some \<lparr> m_adapter = Stack [0, 1, 2], objects = [5, 1, 3] \<rparr>"
    "createThreadsafeSTLAdapterFrom (PriorityQueue (<) [5, 1, 3 :: int]) [(<)] =
       Some \<lparr> m_adapter = PriorityQueue (CustomComparator (<)) [0, 1, 2], objects = [5, 1, 3] \<rparr>"
    by (simp_all add: make_shared_def)
  have r: "createThreadsafeSTLAdapterFrom_rvalue (\<lambda>x. 0) (Queue [5, 1, 3 :: int]) [] =
       Some (\<lparr> m_adapter = Queue [0, 1, 2], objects = [5, 1, 3] \<rparr>, Queue [0, 0, 0])"
    "createThreadsafeSTLAdapterFrom_rvalue (\<lambda>x. 0) (Stack [5, 1, 3 :: int]) [] =
       Some (\<lparr> m_adapter = Stack [0, 1, 2], objects = [5, 1, 3] \<rparr>, Stack [0, 0, 0])"
    "createThreadsafeSTLAdapterFrom_rvalue (\<lambda>x. 0) (PriorityQueue (<) [5, 1, 3 :: int]) [(<)] =
       Some (\<lparr> m_adapter = PriorityQueue (CustomComparator (<)) [0, 1, 2], objects = [5, 1, 3] \<rparr>,
             PriorityQueue (<) [0, 0, 0])"
    by (simp_all add: make_shared_def)
  from factory_wraps_every_element[OF q, of "\<lambda>x. 0"] factory_wraps_every_element[OF s, of "\<lambda>x. 0"]
       factory_wraps_every_element[OF p, of "\<lambda>x. 0"] q s p e r
  show ?thesis unfolding e r by simp
qed

subsection \<open>Popping\<close>

text \<open>
  C2. On an adapter whose container is empty \<open>pop\<close> throws \<open>EmptyAdapter\<close> and
  \<open>tryPop\<close> returns \<open>false\<close> (the null handle) and throws nothing; on an adapter that
  is not empty both succeed with the element \<open>getCurrent\<close> selects. Both are total on
  every adapter: neither has the blocked outcome that \<open>waitAndPop\<close> has.
\<close>

theorem pop_and_tryPop_by_emptiness:
  "(std_empty (m_adapter t) \<longrightarrow>
        fst (pop_ref v t) = Inl EmptyAdapter \<and> fst (pop t) = Inl EmptyAdapter
      \<and> fst (tryPop_ref v t) = False \<and> fst (tryPop t) = None)
 \<and> (\<not> std_empty (m_adapter t) \<longrightarrow>
        fst (pop_ref v t) = Inr ()
      \<and> fst (snd (pop_ref v t)) = deref (objects t) (getCurrent (m_adapter t))
      \<and> fst (pop t) = Inr (getCurrent (m_adapter t))
      \<and> fst (tryPop_ref v t) = True
      \<and> fst (snd (tryPop_ref v t)) = deref (objects t) (getCurrent (m_adapter t))
      \<and> fst (tryPop t) = Some (getCurrent (m_adapter t)))"
  by (simp add: pop_ref_def pop_def tryPop_ref_def tryPop_def)

theorem pop_and_tryPop_by_emptiness_witness:
  "fst (pop_ref (7 :: int) \<lparr> m_adapter = Queue [], objects = [] \<rparr>) = Inl EmptyAdapter
 \<and> fst (tryPop_ref (7 :: int) \<lparr> m_adapter = Queue [], objects = [] \<rparr>) = False
 \<and> fst (pop_ref (7 :: int) \<lparr> m_adapter = Queue [0, 1, 2], objects = [5, 1, 3] \<rparr>) = Inr ()
 \<and> fst (snd (pop_ref (7 :: int) \<lparr> m_adapter = Queue [0, 1, 2], objects = [5, 1, 3] \<rparr>)) = 5
 \<and> fst (snd (tryPop_ref (7 :: int) \<lparr> m_adapter = Queue [0, 1, 2], objects = [5, 1, 3] \<rparr>)) = 5"
proof -
  have e: "std_empty (m_adapter \<lparr> m_adapter = Queue [], objects = [] :: int list \<rparr>)"
    by (simp add: std_empty_def)
  have n: "\<not> std_empty (m_adapter \<lparr> m_adapter = Queue [0, 1, 2], objects = [5, 1, 3 :: int] \<rparr>)"
    by (simp add: std_empty_def)
  have g: "deref (objects \<lparr> m_adapter = Queue [0, 1, 2], objects = [5, 1, 3 :: int] \<rparr>)
             (getCurrent (m_adapter \<lparr> m_adapter = Queue [0, 1, 2], objects = [5, 1, 3 :: int] \<rparr>)) = 5"
    by (simp add: getCurrent_def deref_def)
  from pop_and_tryPop_by_emptiness[of "\<lparr> m_adapter = Queue [], objects = [] \<rparr>" "7 :: int"]
       pop_and_tryPop_by_emptiness[of "\<lparr> m_adapter = Queue [0, 1, 2], objects = [5, 1, 3] \<rparr>" "7 :: int"]
       e n g
  show ?thesis by simp
qed

text \<open>
  C7. On an adapter that is not empty every pop (\<open>pop\<close>, \<open>tryPop\<close>, \<open>waitAndPop\<close>, in
  both overloads) succeeds, returns the element that \<open>getCurrent\<close> selects in the adapter
  as it is at the call (\<open>top\<close> where the container has one, \<open>front\<close> otherwise), and
  leaves the adapter with that element removed. So \<open>pop\<close> and \<open>tryPop\<close> return the
  same element and leave the same adapter.
\<close>

theorem successful_pop_returns_getCurrent:
  assumes "\<not> std_empty (m_adapter t)"
  shows "pop_ref v t = (Inr (), deref (objects t) (getCurrent (m_adapter t)), remove_current t)
       \<and> tryPop_ref v t = (True, deref (objects t) (getCurrent (m_adapter t)), remove_current t)
       \<and> waitAndPop_ref t = Some (deref (objects t) (getCurrent (m_adapter t)), remove_current t)
       \<and> pop t = (Inr (getCurrent (m_adapter t)), remove_current t)
       \<and> tryPop t = (Some (getCurrent (m_adapter t)), remove_current t)
       \<and> waitAndPop t = Some (getCurrent (m_adapter t), remove_current t)
       \<and> snd (pop_ref v t) = snd (tryPop_ref v t)
       \<and> snd (pop t) = snd (tryPop t)
       \<and> getCurrent (m_adapter t) =
           (if detectTopMethod (m_adapter t) then std_top (m_adapter t) else std_front (m_adapter t))"
  using assms
  by (simp add: pop_ref_def pop_def tryPop_ref_def tryPop_def waitAndPop_ref_def waitAndPop_def
        getCurrent_def)

theorem successful_pop_returns_getCurrent_witness:
  "pop_ref (7 :: int) \<lparr> m_adapter = PriorityQueue (CustomComparator (<)) [0, 1, 2], objects = [5, 1, 3] \<rparr>
     = (Inr (), 5, \<lparr> m_adapter = PriorityQueue (CustomComparator (<)) [2, 1], objects = [5, 1, 3] \<rparr>)
 \<and> tryPop_ref (7 :: int) \<lparr> m_adapter = PriorityQueue (CustomComparator (<)) [0, 1, 2], objects = [5, 1, 3] \<rparr>
     = (True, 5, \<lparr> m_adapter = PriorityQueue (CustomComparator (<)) [2, 1], objects = [5, 1, 3] \<rparr>)"
proof -
  let ?t = "\<lparr> m_adapter = PriorityQueue (CustomComparator (<)) [0, 1, 2], objects = [5, 1, 3 :: int] \<rparr>"
  have n: "\<not> std_empty (m_adapter ?t)"
    by (simp add: std_empty_def)
  have g: "deref (objects ?t) (getCurrent (m_adapter ?t)) = 5"
    by (simp add: getCurrent_def deref_def)
  have r: "remove_current ?t =
      \<lparr> m_adapter = PriorityQueue (CustomComparator (<)) [2, 1], objects = [5, 1, 3] \<rparr>"
    by (simp add: remove_current_def pop_heap_def sift_down.simps swap_def call_operator_def
          deref_def)
  from successful_pop_returns_getCurrent[OF n, of 7] g r show ?thesis
    by simp
qed

text \<open>
  C10. On an adapter whose container is empty the failing \<open>pop\<close> and the \<open>tryPop\<close>
  that finds nothing change nothing: the adapter after the call is the adapter before it,
  still empty, and the output parameter of the overloads that have one keeps its contents.
\<close>

theorem empty_pop_changes_nothing:
  assumes "std_empty (m_adapter t)"
  shows "pop_ref v t = (Inl EmptyAdapter, v, t)
       \<and> tryPop_ref v t = (False, v, t)
       \<and> pop t = (Inl EmptyAdapter, t)
       \<and> tryPop t = (None, t)
       \<and> std_empty (m_adapter (snd (snd (pop_ref v t))))
       \<and> std_empty (m_adapter (snd (snd (tryPop_ref v t))))"
  using assms by (simp add: pop_ref_def pop_def tryPop_ref_def tryPop_def)

theorem empty_pop_changes_nothing_witness:
  "pop_ref (7 :: int) \<lparr> m_adapter = Queue [], objects = [5, 1] \<rparr>
     = (Inl EmptyAdapter, 7, \<lparr> m_adapter = Queue [], objects = [5, 1] \<rparr>)
 \<and> tryPop_ref (7 :: int) \<lparr> m_adapter = Queue [], objects = [5, 1] \<rparr>
     = (False, 7, \<lparr> m_adapter = Queue [], objects = [5, 1] \<rparr>)"
proof -
  have e: "std_empty (m_adapter \<lparr> m_adapter = Queue [], objects = [5, 1 :: int] \<rparr>)"
    by (simp add: std_empty_def)
  from empty_pop_changes_nothing[OF e, of 7] show ?thesis
    by simp
qed

subsection \<open>The heap algorithms\<close>

lemma parent_less: "0 < i \<Longrightarrow> parent i < i"
  by (simp add: parent_def)

lemma swap_length [simp]: "length (swap c i j) = length c"
  by (simp add: swap_def)

lemma swap_nth:
  "i < length c \<Longrightarrow> j < length c \<Longrightarrow> k < length c \<Longrightarrow>
     swap c i j ! k = (if k = j then c ! i else if k = i then c ! j else c ! k)"
  by (simp add: swap_def nth_list_update)

lemma swap_mset: "i < length c \<Longrightarrow> j < length c \<Longrightarrow> mset (swap c i j) = mset c"
  by (simp add: swap_def mset_swap)

lemma swo_asym: "strict_weak_order lt \<Longrightarrow> lt x y \<Longrightarrow> \<not> lt y x"
  unfolding strict_weak_order_def by blast

lemma swo_trans: "strict_weak_order lt \<Longrightarrow> lt x y \<Longrightarrow> lt y z \<Longrightarrow> lt x z"
  unfolding strict_weak_order_def by blast

lemma swo_neg_trans: "strict_weak_order lt \<Longrightarrow> \<not> lt x y \<Longrightarrow> \<not> lt y z \<Longrightarrow> \<not> lt x z"
  unfolding strict_weak_order_def by blast

lemma swap_heap_except_up:
  assumes swo: "strict_weak_order lt" and i: "0 < i" "i < length c"
    and h: "heap_except_up lt c i" and lt: "lt (c ! parent i) (c ! i)"
  shows "heap_except_up lt (swap c i (parent i)) (parent i)"
proof -
  let ?p = "parent i"
  let ?c = "swap c i ?p"
  have p: "?p < i" using i by (simp add: parent_less)
  have n1: "?c ! ?p = c ! i" using i p by (simp add: swap_nth)
  have n2: "?c ! i = c ! ?p" using i p by (simp add: swap_nth)
  have n3: "?c ! k = c ! k" if "k < length c" "k \<noteq> i" "k \<noteq> ?p" for k
    using that i p by (simp add: swap_nth)
  have h1: "\<not> lt (c ! parent j) (c ! j)" if "0 < j" "j < length c" "j \<noteq> i" for j
    using h that unfolding heap_except_up_def by blast
  have h2: "\<not> lt (c ! ?p) (c ! j)" if "0 < j" "j < length c" "parent j = i" for j
    using h that i unfolding heap_except_up_def by blast
  have A: "\<not> lt (?c ! parent j) (?c ! j)" if j: "0 < j" "j < length c" "j \<noteq> ?p" for j
  proof -
    have pj: "parent j < j" using j by (simp add: parent_less)
    then have pjl: "parent j < length c" using j by simp
    consider "j = i" | "j \<noteq> i" "parent j = i" | "j \<noteq> i" "parent j = ?p" | "j \<noteq> i" "parent j \<noteq> i" "parent j \<noteq> ?p"
      by blast
    then show ?thesis
    proof cases
      case 1
      then show ?thesis using n1 n2 lt swo_asym[OF swo] by simp
    next
      case 2
      from h2[OF j(1,2) 2(2)] have "\<not> lt (c ! ?p) (c ! j)" .
      moreover have "?c ! j = c ! j" using n3[of j] j 2 by simp
      ultimately show ?thesis using 2 n2 by simp
    next
      case 3
      from h1[OF j(1,2) 3(1)] 3 have "\<not> lt (c ! ?p) (c ! j)" by simp
      with lt have "\<not> lt (c ! i) (c ! j)" using swo_trans[OF swo] by blast
      moreover have "?c ! j = c ! j" using n3[of j] j 3 by simp
      ultimately show ?thesis using 3 n1 by simp
    next
      case 4
      from h1[OF j(1,2) 4(1)] have "\<not> lt (c ! parent j) (c ! j)" .
      moreover have "?c ! j = c ! j" using n3[of j] j 4 by simp
      moreover have "?c ! parent j = c ! parent j" using n3[of "parent j"] pjl 4 by simp
      ultimately show ?thesis by simp
    qed
  qed
  have B: "\<not> lt (?c ! parent ?p) (?c ! j)" if j: "0 < j" "j < length c" "parent j = ?p" "0 < ?p" for j
  proof -
    have pp: "parent ?p < ?p" using j by (simp add: parent_less)
    have ppn: "?c ! parent ?p = c ! parent ?p" using n3[of "parent ?p"] pp p i by simp
    have 1: "\<not> lt (c ! parent ?p) (c ! ?p)" using h1[of ?p] j p i by simp
    show ?thesis
    proof (cases "j = i")
      case True
      then show ?thesis using n2 ppn 1 by simp
    next
      case False
      have jp: "j \<noteq> ?p" using j parent_less[of j] by auto
      from h1[OF j(1,2) False] j have "\<not> lt (c ! ?p) (c ! j)" by simp
      with 1 have "\<not> lt (c ! parent ?p) (c ! j)" using swo_neg_trans[OF swo] by blast
      moreover have "?c ! j = c ! j" using n3[of j] j False jp by simp 
      ultimately show ?thesis using ppn by simp
    qed
  qed
  show ?thesis unfolding heap_except_up_def using A B by simp
qed

lemma sift_up_length [simp]: "length (sift_up lt c k) = length c"
  by (induction lt c k rule: sift_up.induct) (subst sift_up.simps, simp)

lemma sift_up_mset: "k < length c \<Longrightarrow> mset (sift_up lt c k) = mset c"
proof (induction lt c k rule: sift_up.induct)
  case (1 lt c i)
  show ?case
  proof (cases "i \<noteq> 0 \<and> lt (c ! parent i) (c ! i)")
    case True
    then have p: "parent i < i" by (simp add: parent_less)
    with 1 True have "mset (sift_up lt (swap c i (parent i)) (parent i)) = mset (swap c i (parent i))"
      by simp
    with True p "1.prems" show ?thesis by (subst sift_up.simps) (simp add: swap_mset)
  next
    case False
    then show ?thesis by (subst sift_up.simps) auto
  qed
qed

lemma sift_up_heap:
  "strict_weak_order lt \<Longrightarrow> k < length c \<Longrightarrow> heap_except_up lt c k \<Longrightarrow>
     heap_upto lt (sift_up lt c k) (length c)"
proof (induction lt c k rule: sift_up.induct)
  case (1 lt c i)
  show ?case
  proof (cases "i = 0")
    case True
    with "1.prems" show ?thesis
      by (subst sift_up.simps) (auto simp: heap_except_up_def heap_upto_def)
  next
    case i0: False
    show ?thesis
    proof (cases "lt (c ! parent i) (c ! i)")
      case True
      have p: "parent i < i" using i0 by (simp add: parent_less)
      have "heap_except_up lt (swap c i (parent i)) (parent i)"
        using swap_heap_except_up[of lt i c] "1.prems" i0 True by simp
      with 1 i0 True p have "heap_upto lt (sift_up lt (swap c i (parent i)) (parent i)) (length c)"
        by simp
      with i0 True show ?thesis by (subst sift_up.simps) simp
    next
      case False
      with "1.prems" i0 show ?thesis
        by (subst sift_up.simps) (auto simp: heap_except_up_def heap_upto_def)
    qed
  qed
qed

lemma parent_children: "0 < j \<Longrightarrow> parent j = i \<longleftrightarrow> j = 2 * i + 1 \<or> j = 2 * i + 2"
  unfolding parent_def by arith

lemma sift_down_length [simp]: "length (sift_down lt c n i) = length c"
  by (induction lt c n i rule: sift_down.induct) (subst sift_down.simps, simp add: Let_def)

lemma sift_down_mset: "n \<le> length c \<Longrightarrow> mset (sift_down lt c n i) = mset c"
proof (induction lt c n i rule: sift_down.induct)
  case (1 lt c n i)
  let ?m = "if 2 * i + 2 < n \<and> lt (c ! (2 * i + 1)) (c ! (2 * i + 2)) then 2 * i + 2 else 2 * i + 1"
  show ?case
  proof (cases "2 * i + 1 < n \<and> lt (c ! i) (c ! ?m)")
    case True
    then have m: "?m < n" "i < n" by auto
    from True "1.prems" have "mset (sift_down lt (swap c i ?m) n ?m) = mset (swap c i ?m)"
      by (intro "1.IH") auto
    also have "\<dots> = mset c" using m "1.prems" by (intro swap_mset) auto
    finally show ?thesis using True by (subst sift_down.simps) (simp add: Let_def)
  next
    case False
    then show ?thesis by (subst sift_down.simps) (auto simp: Let_def)
  qed
qed

lemma sift_down_outside:
  "n \<le> length c \<Longrightarrow> k < length c \<Longrightarrow> k < i \<or> n \<le> k \<Longrightarrow> sift_down lt c n i ! k = c ! k"
proof (induction lt c n i rule: sift_down.induct)
  case (1 lt c n i)
  let ?m = "if 2 * i + 2 < n \<and> lt (c ! (2 * i + 1)) (c ! (2 * i + 2)) then 2 * i + 2 else 2 * i + 1"
  show ?case
  proof (cases "2 * i + 1 < n \<and> lt (c ! i) (c ! ?m)")
    case True
    then have m: "?m < n" "i < n" "i < ?m" by auto
    have "sift_down lt (swap c i ?m) n ?m ! k = swap c i ?m ! k"
      using True "1.prems" m by (intro "1.IH") auto
    also have "\<dots> = c ! k" using m "1.prems" by (subst swap_nth) auto
    finally show ?thesis using True by (subst sift_down.simps) (simp add: Let_def)
  next
    case False
    then show ?thesis by (subst sift_down.simps) (auto simp: Let_def)
  qed
qed

lemma swap_heap_except_down:
  assumes swo: "strict_weak_order lt" and n: "n \<le> length c" and l: "2 * i + 1 < n"
    and m: "m = (if 2 * i + 2 < n \<and> lt (c ! (2 * i + 1)) (c ! (2 * i + 2)) then 2 * i + 2 else 2 * i + 1)"
    and h: "heap_except_down lt c n i" and lt: "lt (c ! i) (c ! m)"
  shows "heap_except_down lt (swap c i m) n m"
proof -
  let ?c = "swap c i m"
  have mn: "m < n" "i < m" "0 < m" "parent m = i" using m l by (auto simp: parent_children)
  have il: "i < length c" "m < length c" using mn n by auto
  have n1: "?c ! m = c ! i" using il mn by (simp add: swap_nth)
  have n2: "?c ! i = c ! m" using il mn by (simp add: swap_nth)
  have n3: "?c ! k = c ! k" if "k < length c" "k \<noteq> i" "k \<noteq> m" for k
    using that il by (simp add: swap_nth)
  have h1: "\<not> lt (c ! parent j) (c ! j)" if "0 < j" "j < n" "parent j \<noteq> i" for j
    using h that unfolding heap_except_down_def by blast
  have h2: "\<not> lt (c ! parent i) (c ! j)" if "0 < j" "j < n" "parent j = i" "0 < i" for j
    using h that unfolding heap_except_down_def by blast
  have sib: "\<not> lt (c ! m) (c ! j)" if "0 < j" "j < n" "parent j = i" "j \<noteq> m" for j
  proof -
    from that have "j = 2 * i + 1 \<or> j = 2 * i + 2" by (simp add: parent_children)
    then show ?thesis
    proof
      assume j: "j = 2 * i + 1"
      with that m have "m = 2 * i + 2" "lt (c ! (2 * i + 1)) (c ! (2 * i + 2))"
        by (auto split: if_splits)
      then show ?thesis using j swo_asym[OF swo] by simp
    next
      assume j: "j = 2 * i + 2"
      with that m have "m = 2 * i + 1" "\<not> lt (c ! (2 * i + 1)) (c ! (2 * i + 2))"
        by (auto split: if_splits)
      then show ?thesis using j by simp
    qed
  qed
  have A: "\<not> lt (?c ! parent j) (?c ! j)" if j: "0 < j" "j < n" "parent j \<noteq> m" for j
  proof -
    have pj: "parent j < j" using j by (simp add: parent_less)
    then have pjl: "parent j < length c" "j < length c" using j n by auto
    consider "j = m" | "j \<noteq> m" "parent j = i" | "j = i" | "j \<noteq> m" "j \<noteq> i" "parent j \<noteq> i"
      by blast
    then show ?thesis
    proof cases
      case 1
      then show ?thesis using mn n1 n2 lt swo_asym[OF swo] by simp
    next
      case 2
      have "j \<noteq> i" using 2 pj by auto
      then have "?c ! j = c ! j" using n3[of j] pjl 2 by simp
      then show ?thesis using sib[OF j(1,2) 2(2) 2(1)] 2 n2 by simp
    next
      case 3
      then have i0: "0 < i" using j by simp
      have "parent i \<noteq> i" "parent i \<noteq> m" using pj 3 mn by auto
      then have "?c ! parent i = c ! parent i" using n3[of "parent i"] pjl 3 by simp
      moreover have "\<not> lt (c ! parent i) (c ! m)" using h2[of m] mn i0 by simp
      ultimately show ?thesis using 3 n2 by simp
    next
      case 4
      have "?c ! j = c ! j" using n3[of j] pjl 4 by simp
      moreover have "?c ! parent j = c ! parent j" using n3[of "parent j"] pjl 4 j by simp
      ultimately show ?thesis using h1[OF j(1,2) 4(3)] by simp
    qed
  qed
  have B: "\<not> lt (?c ! parent m) (?c ! j)" if j: "0 < j" "j < n" "parent j = m" for j
  proof -
    have pj: "parent j < j" using j(1) by (rule parent_less)
    then have "j \<noteq> i" "j \<noteq> m" "j < length c" using j mn n by auto
    then have "?c ! j = c ! j" using n3[of j] by simp
    moreover have "\<not> lt (c ! m) (c ! j)" using h1[of j] j mn by simp
    ultimately show ?thesis using mn n2 by simp
  qed
  show ?thesis unfolding heap_except_down_def using A B by simp
qed

lemma heap_except_down_done:
  assumes swo: "strict_weak_order lt"
    and h: "heap_except_down lt c n i"
    and stop: "2 * i + 1 < n \<longrightarrow>
        \<not> lt (c ! i) (c ! (if 2 * i + 2 < n \<and> lt (c ! (2 * i + 1)) (c ! (2 * i + 2)) then 2 * i + 2 else 2 * i + 1))"
  shows "heap_upto lt c n"
  unfolding heap_upto_def
proof (intro allI impI)
  fix j assume j: "0 < j \<and> j < n"
  show "\<not> lt (c ! parent j) (c ! j)"
  proof (cases "parent j = i")
    case False
    with h j show ?thesis unfolding heap_except_down_def by blast
  next
    case True
    with j have jc: "j = 2 * i + 1 \<or> j = 2 * i + 2" by (simp add: parent_children)
    then have l: "2 * i + 1 < n" using j by auto
    let ?m = "if 2 * i + 2 < n \<and> lt (c ! (2 * i + 1)) (c ! (2 * i + 2)) then 2 * i + 2 else 2 * i + 1"
    from stop l have nm: "\<not> lt (c ! i) (c ! ?m)" by simp
    show ?thesis
    proof (cases "j = ?m")
      case True
      with nm \<open>parent j = i\<close> show ?thesis by simp
    next
      case False
      have "\<not> lt (c ! ?m) (c ! j)"
      proof (cases "2 * i + 2 < n \<and> lt (c ! (2 * i + 1)) (c ! (2 * i + 2))")
        case True
        with False jc have "j = 2 * i + 1" by auto
        with True show ?thesis using swo_asym[OF swo] by simp
      next
        case F: False
        with False jc have "j = 2 * i + 2" by auto
        with F j show ?thesis by simp
      qed
      with nm have "\<not> lt (c ! i) (c ! j)" using swo_neg_trans[OF swo] by blast
      with \<open>parent j = i\<close> show ?thesis by simp
    qed
  qed
qed

lemma sift_down_heap:
  "strict_weak_order lt \<Longrightarrow> n \<le> length c \<Longrightarrow> heap_except_down lt c n i \<Longrightarrow>
     heap_upto lt (sift_down lt c n i) n"
proof (induction lt c n i rule: sift_down.induct)
  case (1 lt c n i)
  let ?m = "if 2 * i + 2 < n \<and> lt (c ! (2 * i + 1)) (c ! (2 * i + 2)) then 2 * i + 2 else 2 * i + 1"
  show ?case
  proof (cases "2 * i + 1 < n \<and> lt (c ! i) (c ! ?m)")
    case True
    have "heap_except_down lt (swap c i ?m) n ?m"
      using swap_heap_except_down[OF "1.prems"(1,2) _ refl "1.prems"(3)] True by simp
    then have "heap_upto lt (sift_down lt (swap c i ?m) n ?m) n"
      using True "1.prems" by (intro "1.IH") auto
    then show ?thesis using True by (subst sift_down.simps) (simp add: Let_def)
  next
    case False
    then have "heap_upto lt c n"
      using heap_except_down_done[OF "1.prems"(1,3)] by blast
    with False show ?thesis by (subst sift_down.simps) (auto simp: Let_def)
  qed
qed

lemma is_heap_iff: "is_heap lt c = heap_upto lt c (length c)"
  unfolding is_heap_def heap_upto_def list_all_iff by auto

lemma is_heap_cong:
  assumes "\<And>x y. x \<in> set c \<Longrightarrow> y \<in> set c \<Longrightarrow> f x y = g x y"
  shows "is_heap f c = is_heap g c"
proof -
  have "f (c ! parent i) (c ! i) = g (c ! parent i) (c ! i)" if "0 < i" "i < length c" for i
  proof -
    have "parent i < length c" using parent_less[OF that(1)] that(2) by simp
    then show ?thesis using that assms by simp
  qed
  then show ?thesis unfolding is_heap_iff heap_upto_def by blast
qed

lemma push_heap_length [simp]: "length (push_heap lt c) = length c"
  by (simp add: push_heap_def)

lemma push_heap_mset: "mset (push_heap lt (c @ [x])) = add_mset x (mset c)"
  by (simp add: push_heap_def sift_up_mset)

lemma push_heap_heap:
  assumes "strict_weak_order lt" "is_heap lt c"
  shows "is_heap lt (push_heap lt (c @ [x]))"
proof -
  have "heap_except_up lt (c @ [x]) (length c)"
    unfolding heap_except_up_def
  proof (intro conjI allI impI)
    fix i assume i: "0 < i \<and> i < length (c @ [x]) \<and> i \<noteq> length c"
    then have "i < length c" by simp
    moreover have "parent i < length c" using parent_less[of i] i by simp
    ultimately show "\<not> lt ((c @ [x]) ! parent i) ((c @ [x]) ! i)"
      using assms(2) i unfolding is_heap_iff heap_upto_def by (simp add: nth_append)
  next
    fix i assume i: "0 < i \<and> i < length (c @ [x]) \<and> parent i = length c \<and> 0 < length c"
    then have "parent i < i" by (intro parent_less) simp
    with i show "\<not> lt ((c @ [x]) ! parent (length c)) ((c @ [x]) ! i)" by simp
  qed
  from sift_up_heap[OF assms(1) _ this] show ?thesis
    by (simp add: push_heap_def is_heap_iff)
qed

lemma pop_heap_length [simp]: "length (pop_heap lt c) = length c"
  by (simp add: pop_heap_def)

lemma pop_heap_last: "c \<noteq> [] \<Longrightarrow> last (pop_heap lt c) = hd c"
proof -
  assume c: "c \<noteq> []"
  let ?n = "length c - 1"
  have "pop_heap lt c ! ?n = swap c 0 ?n ! ?n"
    unfolding pop_heap_def using c by (intro sift_down_outside) auto
  also have "\<dots> = c ! 0" using c by (simp add: swap_nth)
  finally have "pop_heap lt c ! ?n = c ! 0" .
  moreover have "pop_heap lt c \<noteq> []" using c by (metis length_0_conv pop_heap_length)
  ultimately show ?thesis using c by (simp add: last_conv_nth hd_conv_nth)
qed

lemma pop_heap_mset: "c \<noteq> [] \<Longrightarrow> mset (pop_heap lt c) = mset c"
  by (simp add: pop_heap_def sift_down_mset swap_mset)

lemma butlast_pop_heap_mset:
  assumes "c \<noteq> []"
  shows "mset (butlast (pop_heap lt c)) = mset c - {# hd c #}"
proof -
  have ne: "pop_heap lt c \<noteq> []" using assms by (metis length_0_conv pop_heap_length)
  have "mset (pop_heap lt c) = add_mset (last (pop_heap lt c)) (mset (butlast (pop_heap lt c)))"
    using append_butlast_last_id[OF ne] by (metis mset.simps(1,2) mset_append union_mset_add_mset_right add.right_neutral)
  then show ?thesis using assms by (simp add: pop_heap_mset pop_heap_last)
qed

lemma butlast_pop_heap_heap:
  assumes swo: "strict_weak_order lt" and h: "is_heap lt c" and c: "c \<noteq> []"
  shows "is_heap lt (butlast (pop_heap lt c))"
proof -
  let ?n = "length c - 1"
  let ?c = "swap c 0 ?n"
  have "heap_except_down lt ?c ?n 0"
    unfolding heap_except_down_def
  proof (intro conjI allI impI)
    fix i assume i: "0 < i \<and> i < ?n \<and> parent i \<noteq> 0"
    then have p: "parent i < i" by (intro parent_less) simp
    have l: "0 < length c" "?n < length c" "i < length c" "parent i < length c"
      using i p c by auto
    have "?c ! i = c ! i" "?c ! parent i = c ! parent i"
      using i p swap_nth[OF l(1,2,3)] swap_nth[OF l(1,2,4)] by auto
    moreover have "\<not> lt (c ! parent i) (c ! i)"
      using h i l unfolding is_heap_iff heap_upto_def by blast
    ultimately show "\<not> lt (?c ! parent i) (?c ! i)" by simp
  qed simp
  from sift_down_heap[OF swo _ this] have "heap_upto lt (pop_heap lt c) ?n"
    by (simp add: pop_heap_def)
  moreover have "butlast (pop_heap lt c) ! i = pop_heap lt c ! i" if "i < ?n" for i
    using that by (simp add: nth_butlast)
  moreover have "parent i < ?n" if "0 < i" "i < ?n" for i
    using parent_less[OF that(1)] that(2) by simp
  ultimately show ?thesis
    unfolding is_heap_iff heap_upto_def by simp
qed

lemma heap_top_max:
  assumes swo: "strict_weak_order lt" and h: "is_heap lt c"
  shows "i < length c \<Longrightarrow> \<not> lt (c ! 0) (c ! i)"
proof (induction i rule: less_induct)
  case (less i)
  show ?case
  proof (cases "i = 0")
    case True
    then show ?thesis using swo unfolding strict_weak_order_def by simp
  next
    case False
    then have p: "parent i < i" by (simp add: parent_less)
    with less have "\<not> lt (c ! 0) (c ! parent i)" by simp
    moreover have "\<not> lt (c ! parent i) (c ! i)"
      using h False less.prems unfolding is_heap_iff heap_upto_def by simp
    ultimately show ?thesis using swo_neg_trans[OF swo] by blast
  qed
qed

lemma heap_hd_max:
  assumes "strict_weak_order lt" "is_heap lt c" "x \<in> set c"
  shows "\<not> lt (hd c) x"
proof -
  from assms(3) obtain i where "i < length c" "c ! i = x" by (auto simp: in_set_conv_nth)
  moreover then have "hd c = c ! 0" by (cases c) auto
  ultimately show ?thesis using heap_top_max[OF assms(1,2)] by metis
qed

subsection \<open>Runs of one thread\<close>

lemma deref_append: "p < length mem \<Longrightarrow> deref (mem @ [v]) p = deref mem p"
  by (simp add: deref_def nth_append)

lemma deref_new: "deref (mem @ [v]) (length mem) = v"
  by (simp add: deref_def)

lemma map_deref_append:
  "list_all (\<lambda>p. p < length mem) hs \<Longrightarrow> map (deref (mem @ [v])) hs = map (deref mem) hs"
  by (induction hs) (simp_all add: deref_append)

lemma push_Queue:
  assumes "m_adapter t = Queue hs" "handles_valid t"
  shows "m_adapter (push v t) = Queue (hs @ [length (objects t)])"
    and "handles_valid (push v t)"
    and "held (push v t) = held t @ [v]"
proof -
  show 1: "m_adapter (push v t) = Queue (hs @ [length (objects t)])"
    using assms by (simp add: push_def make_shared_def)
  have o: "objects (push v t) = objects t @ [v]"
    by (simp add: push_def make_shared_def)
  from assms have "list_all (\<lambda>p. p < length (objects t)) hs"
    by (simp add: handles_valid_def)
  then show "held (push v t) = held t @ [v]"
    using assms 1 o by (simp add: held_def map_deref_append deref_new)
  from assms show "handles_valid (push v t)"
    using 1 o by (auto simp: handles_valid_def list_all_iff)
qed

lemma tryPop_Queue:
  assumes "m_adapter t = Queue hs" "handles_valid t"
  shows "tryPop t = (if hs = [] then (None, t) else (Some (hd hs), t\<lparr> m_adapter := Queue (tl hs) \<rparr>))"
  using assms by (simp add: tryPop_def std_empty_def getCurrent_def remove_current_def)

lemma run_fifo:
  "is_fifo t \<Longrightarrow> run ops t = (outs, t') \<Longrightarrow>
     is_fifo t' \<and> popped outs @ held t' = held t @ pushed ops"
proof (induction ops arbitrary: t outs t')
  case Nil
  then show ?case by simp
next
  case (Cons op ops)
  from Cons.prems(1) obtain hs where hs: "m_adapter t = Queue hs" "handles_valid t"
    by (auto simp: is_fifo_def split: Adapt.splits)
  show ?case
  proof (cases op)
    case (Push v)
    from push_Queue[OF hs] have "is_fifo (push v t)" "held (push v t) = held t @ [v]"
      by (simp_all add: is_fifo_def)
    with Cons.IH[of "push v t" outs t'] Cons.prems Push show ?thesis by simp
  next
    case TryPop
    show ?thesis
    proof (cases "hs = []")
      case True
      with tryPop_Queue[OF hs] have tp: "tryPop t = (None, t)" by simp
      obtain outs' where r: "run ops t = (outs', t')" "outs = None # outs'"
        using Cons.prems(2) TryPop tp by (auto split: prod.splits)
      with Cons.IH[OF Cons.prems(1) r(1)] show ?thesis using TryPop by simp
    next
      case False
      let ?t = "t\<lparr> m_adapter := Queue (tl hs) \<rparr>"
      from False tryPop_Queue[OF hs] have tp: "tryPop t = (Some (hd hs), ?t)" by simp
      obtain outs' where r: "run ops ?t = (outs', t')" "outs = Some (deref (objects t) (hd hs)) # outs'"
        using Cons.prems(2) TryPop tp by (auto split: prod.splits)
      have f: "is_fifo ?t" using hs False
        by (cases hs) (auto simp: is_fifo_def handles_valid_def)
      have h: "held t = deref (objects t) (hd hs) # held ?t"
        using hs False by (cases hs) (auto simp: held_def)
      from Cons.IH[OF f r(1)] show ?thesis using TryPop r(2) h by simp
    qed
  qed
qed

lemma swo_call_operator:
  "strict_weak_order (m_comparator cc) \<Longrightarrow> strict_weak_order (call_operator mem cc)"
  unfolding strict_weak_order_def call_operator_def by blast

lemma push_PriorityQueue:
  assumes swo: "strict_weak_order lt" and h: "heap_ordered t lt"
  shows "heap_ordered (push v t) lt"
    and "mset (held (push v t)) = add_mset v (mset (held t))"
proof -
  from h obtain cc hs where t: "m_adapter t = PriorityQueue cc hs" "m_comparator cc = lt"
      "is_heap (call_operator (objects t) cc) hs" "handles_valid t"
    by (auto simp: heap_ordered_def split: Adapt.splits)
  let ?mem = "objects t @ [v]"
  let ?hs = "push_heap (call_operator ?mem cc) (hs @ [length (objects t)])"
  have a: "m_adapter (push v t) = PriorityQueue cc ?hs" and o: "objects (push v t) = ?mem"
    using t by (simp_all add: push_def make_shared_def)
  have v: "list_all (\<lambda>p. p < length (objects t)) hs"
    using t by (simp add: handles_valid_def)
  have "call_operator ?mem cc x y = call_operator (objects t) cc x y" if "x \<in> set hs" "y \<in> set hs" for x y
    using that v by (simp add: call_operator_def deref_append list_all_iff)
  then have "is_heap (call_operator ?mem cc) hs"
    using t(3) is_heap_cong[of hs "call_operator ?mem cc" "call_operator (objects t) cc"] by simp
  moreover have "strict_weak_order (call_operator ?mem cc)"
    using swo t(2) by (simp add: swo_call_operator)
  ultimately have hp: "is_heap (call_operator ?mem cc) ?hs"
    by (simp add: push_heap_heap)
  have ms: "mset ?hs = add_mset (length (objects t)) (mset hs)"
    by (simp add: push_heap_mset)
  then have "set ?hs = insert (length (objects t)) (set hs)"
    by (metis set_mset_add_mset_insert set_mset_mset)
  with v have "handles_valid (push v t)"
    using a o by (auto simp: handles_valid_def list_all_iff)
  with hp a o t(2) show "heap_ordered (push v t) lt"
    by (simp add: heap_ordered_def)
  have "mset (held (push v t)) = image_mset (deref ?mem) (mset ?hs)"
    using a o by (simp add: held_def)
  also have "\<dots> = add_mset v (mset (map (deref ?mem) hs))"
    by (simp add: ms deref_new)
  also have "map (deref ?mem) hs = held t"
    using t(1) v by (simp add: held_def map_deref_append)
  finally show "mset (held (push v t)) = add_mset v (mset (held t))" .
qed

lemma tryPop_PriorityQueue:
  assumes swo: "strict_weak_order lt" and h: "heap_ordered t lt"
  shows "held t = [] \<Longrightarrow> tryPop t = (None, t)"
    and "held t \<noteq> [] \<Longrightarrow>
           (\<exists>p t'. tryPop t = (Some p, t') \<and> heap_ordered t' lt \<and> objects t' = objects t
                \<and> deref (objects t) p = hd (held t)
                \<and> mset (held t') = mset (held t) - {# hd (held t) #}
                \<and> (\<forall>u \<in> set (held t). \<not> lt (hd (held t)) u))"
proof -
  from h obtain cc hs where t: "m_adapter t = PriorityQueue cc hs" "m_comparator cc = lt"
      "is_heap (call_operator (objects t) cc) hs" "handles_valid t"
    by (auto simp: heap_ordered_def split: Adapt.splits)
  show "held t = [] \<Longrightarrow> tryPop t = (None, t)"
    using t by (simp add: held_def tryPop_def std_empty_def)
  assume ne: "held t \<noteq> []"
  then have hs: "hs \<noteq> []" using t by (simp add: held_def)
  let ?lt = "call_operator (objects t) cc"
  let ?hs = "butlast (pop_heap ?lt hs)"
  let ?t = "t\<lparr> m_adapter := PriorityQueue cc ?hs \<rparr>"
  have so: "strict_weak_order ?lt" using swo t(2) by (simp add: swo_call_operator)
  have tp: "tryPop t = (Some (hd hs), ?t)"
    using t hs by (simp add: tryPop_def std_empty_def getCurrent_def remove_current_def)
  have hh: "hd (held t) = deref (objects t) (hd hs)"
    using t hs by (simp add: held_def hd_map)
  have ms: "mset ?hs = mset hs - {# hd hs #}" using hs by (rule butlast_pop_heap_mset)
  then have "set ?hs \<subseteq> set hs"
    by (metis in_diffD set_mset_mset subsetI)
  then have "handles_valid ?t" using t(4) t(1) by (auto simp: handles_valid_def list_all_iff)
  moreover have "is_heap ?lt ?hs" using so t(3) hs by (rule butlast_pop_heap_heap)
  ultimately have ho: "heap_ordered ?t lt" using t(2) by (simp add: heap_ordered_def)
  have "mset (held ?t) = image_mset (deref (objects t)) (mset hs - {# hd hs #})"
    using ms by (simp add: held_def)
  also have "\<dots> = image_mset (deref (objects t)) (mset hs) - {# deref (objects t) (hd hs) #}"
    using hs by (subst image_mset_Diff) auto
  finally have m: "mset (held ?t) = mset (held t) - {# hd (held t) #}"
    using t(1) hh by (simp add: held_def)
  have "\<not> lt (hd (held t)) u" if "u \<in> set (held t)" for u
  proof -
    from that t(1) obtain q where q: "q \<in> set hs" "u = deref (objects t) q" by (auto simp: held_def)
    from heap_hd_max[OF so t(3) q(1)] show ?thesis
      using q(2) hh t(2) by (simp add: call_operator_def)
  qed
  with tp ho hh m show "\<exists>p t'. tryPop t = (Some p, t') \<and> heap_ordered t' lt \<and> objects t' = objects t
                \<and> deref (objects t) p = hd (held t)
                \<and> mset (held t') = mset (held t) - {# hd (held t) #}
                \<and> (\<forall>u \<in> set (held t). \<not> lt (hd (held t)) u)"
    by simp
qed

lemma run_priority:
  assumes swo: "strict_weak_order lt"
  shows "heap_ordered t lt \<Longrightarrow> run ops t = (outs, t') \<Longrightarrow>
     heap_ordered t' lt \<and> mset (popped outs) + mset (held t') = mset (held t) + mset (pushed ops)"
proof (induction ops arbitrary: t outs t')
  case Nil
  then show ?case by simp
next
  case (Cons op ops)
  show ?case
  proof (cases op)
    case (Push v)
    from push_PriorityQueue[OF swo Cons.prems(1), of v] Cons.IH[of "push v t" outs t'] Cons.prems Push
    show ?thesis by simp
  next
    case TryPop
    show ?thesis
    proof (cases "held t = []")
      case True
      with tryPop_PriorityQueue(1)[OF swo Cons.prems(1)] have tp: "tryPop t = (None, t)" by simp
      obtain outs' where r: "run ops t = (outs', t')" "outs = None # outs'"
        using Cons.prems(2) TryPop tp by (auto split: prod.splits)
      with Cons.IH[OF Cons.prems(1) r(1)] show ?thesis using TryPop by simp
    next
      case False
      from tryPop_PriorityQueue(2)[OF swo Cons.prems(1) False] obtain p t1 where
        tp: "tryPop t = (Some p, t1)" "heap_ordered t1 lt" "objects t1 = objects t"
            "deref (objects t) p = hd (held t)" "mset (held t1) = mset (held t) - {# hd (held t) #}"
        by blast
      obtain outs' where r: "run ops t1 = (outs', t')" "outs = Some (hd (held t)) # outs'"
        using Cons.prems(2) TryPop tp by (auto split: prod.splits)
      have "add_mset (hd (held t)) (mset (held t1)) = mset (held t)"
        using tp(5) False by (cases "held t") auto
      with Cons.IH[OF tp(2) r(1)] show ?thesis using TryPop r(2)
        by (metis add_mset_add_single mset.simps(2) popped.simps(3) pushed.simps(3) union_mset_add_mset_left union_mset_add_mset_right add.commute add.assoc)
    qed
  qed
qed

lemma run_pops_descending:
  assumes swo: "strict_weak_order lt"
  shows "heap_ordered t lt \<Longrightarrow> descending lt (popped (fst (run (replicate n TryPop) t)))"
proof (induction n arbitrary: t)
  case 0
  then show ?case by (simp add: descending_def)
next
  case (Suc n)
  show ?case
  proof (cases "held t = []")
    case True
    with tryPop_PriorityQueue(1)[OF swo Suc.prems] have tp: "tryPop t = (None, t)" by simp
    with Suc.IH[OF Suc.prems] show ?thesis by (auto split: prod.splits)
  next
    case False
    from tryPop_PriorityQueue(2)[OF swo Suc.prems False] obtain p t1 where
      tp: "tryPop t = (Some p, t1)" "heap_ordered t1 lt" "objects t1 = objects t"
          "deref (objects t) p = hd (held t)" "mset (held t1) = mset (held t) - {# hd (held t) #}"
          "\<forall>u \<in> set (held t). \<not> lt (hd (held t)) u"
      by blast
    obtain outs t2 where r: "run (replicate n TryPop) t1 = (outs, t2)" by fastforce
    have "pushed (replicate n TryPop) = ([] :: 'a list)" by (induction n) simp_all
    with run_priority[OF swo tp(2) r] have "mset (popped outs) + mset (held t2) = mset (held t1)"
      by simp
    then have "mset (popped outs) \<subseteq># mset (held t1)"
      by (metis mset_subset_eq_add_left)
    then have "set (popped outs) \<subseteq> set (held t)"
      using tp(5) by (metis in_diffD mset_subset_eqD set_mset_mset subsetI)
    with tp(6) have "\<forall>u \<in> set (popped outs). \<not> lt (hd (held t)) u" by blast
    moreover from Suc.IH[OF tp(2)] r have "descending lt (popped outs)" by simp
    ultimately show ?thesis using tp r by (simp add: descending_def)
  qed
qed

lemma factory_is_fifo:
  "createThreadsafeSTLAdapterFrom (Queue c) [] = Some t \<Longrightarrow> is_fifo t \<and> held t = c"
  by (auto simp: transform_make_shared_eq is_fifo_def handles_valid_def held_def list_all_iff
        deref_def[abs_def] map_nth)

lemma factory_heap_ordered:
  assumes "is_heap comparator c"
    and "createThreadsafeSTLAdapterFrom (PriorityQueue src_cmp c) [comparator] = Some t"
  shows "heap_ordered t comparator \<and> held t = c"
proof -
  from assms(2) have t: "t = \<lparr> m_adapter = PriorityQueue (CustomComparator comparator) [0 ..< length c], objects = c \<rparr>"
    by (simp add: transform_make_shared_eq)
  have p: "parent i < length c" if "0 < i" "i < length c" for i
    using parent_less[OF that(1)] that(2) by simp
  have "is_heap (call_operator c (CustomComparator comparator)) [0 ..< length c]"
    using assms(1) p unfolding is_heap_iff heap_upto_def
    by (simp add: call_operator_def deref_def)
  then show ?thesis
    by (simp add: t heap_ordered_def handles_valid_def held_def list_all_iff deref_def[abs_def] map_nth)
qed

lemma std_push_is_heap:
  assumes "strict_weak_order lt"
  shows "is_heap lt c \<Longrightarrow> \<exists>c'. fold (std_push (\<lambda>f. f)) xs (PriorityQueue lt c) = PriorityQueue lt c' \<and> is_heap lt c'"
proof (induction xs arbitrary: c)
  case Nil
  then show ?case by simp
next
  case (Cons x xs)
  from push_heap_heap[OF assms Cons.prems, of x] Cons.IH show ?case by simp
qed


lemma next_tryPop_Queue:
  assumes "is_fifo t"
  shows "fst (run [TryPop] t) = [if held t = [] then None else Some (hd (held t))]"
proof -
  from assms obtain hs where hs: "m_adapter t = Queue hs" "handles_valid t"
    by (auto simp: is_fifo_def split: Adapt.splits)
  from tryPop_Queue[OF hs] hs(1) show ?thesis
    by (cases hs) (simp_all add: held_def)
qed

lemma next_tryPop_PriorityQueue:
  assumes "strict_weak_order lt" "heap_ordered t lt"
  shows "fst (run [TryPop] t) = [if held t = [] then None else Some (hd (held t))]"
proof (cases "held t = []")
  case True
  with tryPop_PriorityQueue(1)[OF assms] show ?thesis by simp
next
  case False
  from tryPop_PriorityQueue(2)[OF assms False] obtain p t' where
    "tryPop t = (Some p, t')" "objects t' = objects t" "deref (objects t) p = hd (held t)"
    by blast
  with False show ?thesis by simp
qed

text \<open>
  C1, as the code has it. A queue adapter returns its elements in insertion order: after
  any run, the elements popped followed by the elements still held are the elements first
  held followed by the elements pushed, and the next \<open>tryPop\<close> returns the oldest
  element held. A priority queue adapter whose container is a heap for its comparator, a
  strict weak ordering, loses and duplicates nothing; after any run the next \<open>tryPop\<close>
  returns an element that is not less than any element held, and pops that no push
  separates come out in descending order. The factory builds such adapters (for a
  priority queue: from a source that is a heap for the comparator passed). Seeded with
  5, 1, 3 the queue adapter returns 5, 1, 3 and then no value; the priority queue adapter
  returns 5, 3, 1 and then no value.
\<close>

theorem pops_follow_the_discipline:
  assumes swo: "strict_weak_order lt"
  shows "(is_fifo tq \<and> run ops tq = (outs, tq') \<longrightarrow>
            popped outs @ held tq' = held tq @ pushed ops
          \<and> fst (run [TryPop] tq') = [if held tq' = [] then None else Some (hd (held tq'))])
       \<and> (heap_ordered tp lt \<and> run ops tp = (outs, tp') \<longrightarrow>
            mset (popped outs) + mset (held tp') = mset (held tp) + mset (pushed ops)
          \<and> fst (run [TryPop] tp') = [if held tp' = [] then None else Some (hd (held tp'))]
          \<and> (\<forall>u \<in> set (held tp'). \<not> lt (hd (held tp')) u)
          \<and> descending lt (popped (fst (run (replicate n TryPop) tp'))))
       \<and> (createThreadsafeSTLAdapterFrom (Queue c) [] = Some tq \<longrightarrow> is_fifo tq \<and> held tq = c)
       \<and> (is_heap lt c \<and> createThreadsafeSTLAdapterFrom (PriorityQueue src_cmp c) [lt] = Some tp \<longrightarrow>
            heap_ordered tp lt \<and> held tp = c)
       \<and> (\<exists>t. createThreadsafeSTLAdapterFrom (Queue [5, 1, 3 :: int]) [] = Some t
              \<and> fst (run [TryPop, TryPop, TryPop, TryPop] t) = [Some 5, Some 1, Some 3, None])
       \<and> (\<exists>t. createThreadsafeSTLAdapterFrom
                 (fold (std_push (\<lambda>f. f)) [5, 1, 3 :: int] (PriorityQueue (<) [])) [(<)] = Some t
              \<and> fst (run [TryPop, TryPop, TryPop, TryPop] t) = [Some 5, Some 3, Some 1, None])"
proof (intro conjI impI)
  assume a: "is_fifo tq \<and> run ops tq = (outs, tq')"
  with run_fifo[of tq ops outs tq'] show "popped outs @ held tq' = held tq @ pushed ops"
    by simp
  from a run_fifo[of tq ops outs tq'] have "is_fifo tq'" by simp
  then show "fst (run [TryPop] tq') = [if held tq' = [] then None else Some (hd (held tq'))]"
    by (rule next_tryPop_Queue)
next
  assume a: "heap_ordered tp lt \<and> run ops tp = (outs, tp')"
  with run_priority[OF swo, of tp ops outs tp'] have h: "heap_ordered tp' lt"
    and m: "mset (popped outs) + mset (held tp') = mset (held tp) + mset (pushed ops)"
    by simp_all
  show "mset (popped outs) + mset (held tp') = mset (held tp) + mset (pushed ops)" by (rule m)
  show "fst (run [TryPop] tp') = [if held tp' = [] then None else Some (hd (held tp'))]"
    using swo h by (rule next_tryPop_PriorityQueue)
  show "\<forall>u \<in> set (held tp'). \<not> lt (hd (held tp')) u"
  proof (cases "held tp' = []")
    case True
    then show ?thesis by simp
  next
    case False
    from tryPop_PriorityQueue(2)[OF swo h False] show ?thesis by blast
  qed
  show "descending lt (popped (fst (run (replicate n TryPop) tp')))"
    using swo h by (rule run_pops_descending)
next
  assume "createThreadsafeSTLAdapterFrom (Queue c) [] = Some tq"
  then show "is_fifo tq" "held tq = c" using factory_is_fifo by blast+
next
  assume a: "is_heap lt c \<and> createThreadsafeSTLAdapterFrom (PriorityQueue src_cmp c) [lt] = Some tp"
  then show "heap_ordered tp lt" "held tp = c" using factory_heap_ordered by blast+
next
  show "\<exists>t. createThreadsafeSTLAdapterFrom (Queue [5, 1, 3 :: int]) [] = Some t
          \<and> fst (run [TryPop, TryPop, TryPop, TryPop] t) = [Some 5, Some 1, Some 3, None]"
    by (simp add: make_shared_def tryPop_def std_empty_def getCurrent_def remove_current_def deref_def)
next
  show "\<exists>t. createThreadsafeSTLAdapterFrom
                 (fold (std_push (\<lambda>f. f)) [5, 1, 3 :: int] (PriorityQueue (<) [])) [(<)] = Some t
              \<and> fst (run [TryPop, TryPop, TryPop, TryPop] t) = [Some 5, Some 3, Some 1, None]"
    by (simp add: push_heap_def sift_up.simps parent_def make_shared_def
        tryPop_def std_empty_def getCurrent_def remove_current_def deref_def
        pop_heap_def sift_down.simps swap_def call_operator_def)
qed

theorem pops_follow_the_discipline_witness:
  "popped (fst (run [TryPop, Push 9, TryPop] \<lparr> m_adapter = Queue [0, 1, 2], objects = [5, 1, 3 :: int] \<rparr>))
     @ held (snd (run [TryPop, Push 9, TryPop] \<lparr> m_adapter = Queue [0, 1, 2], objects = [5, 1, 3 :: int] \<rparr>))
     = [5, 1, 3, 9]
 \<and> descending (<) (popped (fst (run (replicate 3 TryPop)
       (snd (run [Push 4, TryPop]
          \<lparr> m_adapter = PriorityQueue (CustomComparator (<)) [0, 1, 2], objects = [5, 1, 3 :: int] \<rparr>)))))
 \<and> heap_ordered \<lparr> m_adapter = PriorityQueue (CustomComparator (<)) [0, 1, 2], objects = [5, 1, 3 :: int] \<rparr> (<)"
proof -
  let ?tq = "\<lparr> m_adapter = Queue [0, 1, 2], objects = [5, 1, 3 :: int] \<rparr>"
  let ?tp = "\<lparr> m_adapter = PriorityQueue (CustomComparator (<)) [0, 1, 2], objects = [5, 1, 3 :: int] \<rparr>"
  have swo: "strict_weak_order ((<) :: int \<Rightarrow> int \<Rightarrow> bool)"
    unfolding strict_weak_order_def by auto
  have fq: "is_fifo ?tq" by (simp add: is_fifo_def handles_valid_def)
  have hq: "held ?tq = [5, 1, 3]" by (simp add: held_def deref_def)
  have hp: "is_heap (<) [5, 1, 3 :: int]" by (simp add: is_heap_def parent_def upt_rec)
  have cp: "createThreadsafeSTLAdapterFrom (PriorityQueue (<) [5, 1, 3 :: int]) [(<)] = Some ?tp"
    by (simp add: make_shared_def)
  have rq: "run [TryPop, Push 9, TryPop] ?tq =
      (fst (run [TryPop, Push 9, TryPop] ?tq), snd (run [TryPop, Push 9, TryPop] ?tq))" by simp
  have rp: "run [Push 4, TryPop] ?tp = (fst (run [Push 4, TryPop] ?tp), snd (run [Push 4, TryPop] ?tp))"
    by simp
  note w = pops_follow_the_discipline[OF swo, where c = "[5, 1, 3]" and src_cmp = "(<)" and tp = ?tp
      and n = 3 and tq = ?tq]
  from w[where ops = "[TryPop, Push 9, TryPop]" and outs = "fst (run [TryPop, Push 9, TryPop] ?tq)"
      and tq' = "snd (run [TryPop, Push 9, TryPop] ?tq)", THEN conjunct1] fq rq
  have "popped (fst (run [TryPop, Push 9, TryPop] ?tq)) @ held (snd (run [TryPop, Push 9, TryPop] ?tq))
      = held ?tq @ pushed [TryPop, Push 9, TryPop]" by blast
  also have "\<dots> = [5, 1, 3, 9]" unfolding hq by simp
  finally have 1: "popped (fst (run [TryPop, Push 9, TryPop] ?tq)) @ held (snd (run [TryPop, Push 9, TryPop] ?tq))
      = [5, 1, 3, 9]" .
  from w[where ops = "[]" and outs = "[]" and tp' = ?tp and tq' = ?tq,
      THEN conjunct2, THEN conjunct2, THEN conjunct2, THEN conjunct1] hp cp
  have 2: "heap_ordered ?tp (<)" by blast
  from w[where ops = "[Push 4, TryPop]" and outs = "fst (run [Push 4, TryPop] ?tp)"
      and tp' = "snd (run [Push 4, TryPop] ?tp)" and tq' = ?tq, THEN conjunct2, THEN conjunct1] 2 rp
  have 3: "descending (<) (popped (fst (run (replicate 3 TryPop) (snd (run [Push 4, TryPop] ?tp)))))"
    by blast
  from 1 2 3 show ?thesis by blast
qed

text \<open>
  C1 as it is stated fails for pops with a push between them: on the adapter built from
  an empty max-first priority queue, push 1, pop, push 5, pop returns 1 and then 5.
\<close>

theorem interleaved_pops_not_descending:
  "createThreadsafeSTLAdapterFrom (PriorityQueue (<) []) [(<)] =
      Some \<lparr> m_adapter = PriorityQueue (CustomComparator (<)) [], objects = [] :: int list \<rparr>
 \<and> popped (fst (run [Push 1, TryPop, Push 5, TryPop]
      \<lparr> m_adapter = PriorityQueue (CustomComparator (<)) [], objects = [] :: int list \<rparr>)) = [1, 5]
 \<and> \<not> descending (<) [1, 5 :: int]"
  by (simp add: tryPop_def std_empty_def getCurrent_def remove_current_def deref_def push_def
      make_shared_def pop_heap_def push_heap_def sift_up.simps sift_down.simps swap_def
      call_operator_def descending_def)


section \<open>Properties of the controller\<close>

subsection \<open>Threads\<close>

lemma base_inv_live_workers:
  assumes "base_inv s"
  shows "live_workers s \<le> 1"
proof -
  let ?W = "worker_threads s"
  let ?S = "case m_workerThread s of None \<Rightarrow> {} | Some th \<Rightarrow> {tid th}"
  have "{i. i < length ?W \<and> live (?W ! i)} \<subseteq> ?S"
    using assms unfolding base_inv_def inv_live_def by (auto split: option.splits)
  moreover have "card ?S \<le> 1" "finite ?S"
    by (simp_all split: option.splits)
  ultimately have "card {i. i < length ?W \<and> live (?W ! i)} \<le> 1"
    by (meson card_mono le_trans)
  then show ?thesis by (simp add: live_workers_def length_filter_conv_card)
qed

lemma base_inv_queue [simp]: "base_inv (s\<lparr> m_commandQueue := q \<rparr>) = base_inv s"
  by (simp add: base_inv_def inv_live_def inv_tid_def inv_main_def)

lemma base_inv_shared [simp]: "base_inv (s\<lparr> m_sharedContainer := c \<rparr>) = base_inv s"
  by (simp add: base_inv_def inv_live_def inv_tid_def inv_main_def)

lemma base_inv_running [simp]: "base_inv (s\<lparr> m_isWorkerThreadRunning := r \<rparr>) = base_inv s"
  by (simp add: base_inv_def inv_live_def inv_tid_def inv_main_def)

lemma base_inv_calls:
  "base_inv (enableWorkerThread s) = base_inv s"
  "base_inv (disableWorkerThread s) = base_inv s"
  by (simp_all add: enableWorkerThread_def disableWorkerThread_def)

lemma base_inv_shutdown: "base_inv s \<Longrightarrow> base_inv (shutdownMainThread s)"
  by (cases "m_mainThread s")
     (simp_all add: shutdownMainThread_def base_inv_def inv_live_def inv_tid_def inv_main_def)

lemma base_inv_start:
  assumes "base_inv s" "fault s = None" "m_mainThread s = Some WaitAndPop" "\<not> m_workerThreadEnabled s"
  shows "base_inv (start_worker_thread (s\<lparr> m_workerThreadEnabled := True \<rparr>))"
    and "fault (start_worker_thread (s\<lparr> m_workerThreadEnabled := True \<rparr>)) = None"
proof -
  from assms have j: "\<forall>th. m_workerThread s = Some th \<longrightarrow> joined th"
    and l: "inv_live s" and t: "inv_tid s"
    by (simp_all add: base_inv_def inv_main_def)
  from l j have nl: "\<forall>k < length (worker_threads s). \<not> live (worker_threads s ! k)"
    unfolding inv_live_def by fastforce
  have eq: "start_worker_thread (s\<lparr> m_workerThreadEnabled := True \<rparr>) =
      s\<lparr> m_workerThreadEnabled := True, worker_threads := worker_threads s @ [LoopTop],
         m_workerThread := Some \<lparr> tid = length (worker_threads s), joined = False \<rparr> \<rparr>"
    using j by (simp add: start_worker_thread_def Let_def split: option.splits)
  show "fault (start_worker_thread (s\<lparr> m_workerThreadEnabled := True \<rparr>)) = None"
    using assms(2) by (simp add: eq)
  have "inv_live (start_worker_thread (s\<lparr> m_workerThreadEnabled := True \<rparr>))"
    unfolding eq inv_live_def using nl by (auto simp: nth_append less_Suc_eq)
  moreover have "inv_tid (start_worker_thread (s\<lparr> m_workerThreadEnabled := True \<rparr>))"
    unfolding eq inv_tid_def by simp
  moreover have "inv_main (start_worker_thread (s\<lparr> m_workerThreadEnabled := True \<rparr>))"
    unfolding eq inv_main_def using assms(3) by simp
  ultimately show "base_inv (start_worker_thread (s\<lparr> m_workerThreadEnabled := True \<rparr>))"
    by (simp add: base_inv_def)
qed

lemma base_inv_disable:
  assumes "base_inv s" "fault s = None" "m_mainThread s = Some WaitAndPop"
  shows "base_inv (disableWorkerThreadIfEnabled cmd s)"
    and "fault (disableWorkerThreadIfEnabled cmd s) = None"
proof -
  from assms have m: "inv_main s" and l: "inv_live s" and t: "inv_tid s"
    by (simp_all add: base_inv_def)
  show "base_inv (disableWorkerThreadIfEnabled cmd s)"
  proof (cases "m_workerThreadEnabled s")
    case True
    with m assms(3) obtain k where k: "m_workerThread s = Some \<lparr> tid = k, joined = False \<rparr>"
      by (auto simp: inv_main_def)
    then have "disableWorkerThreadIfEnabled cmd s =
        s\<lparr> m_workerThreadEnabled := False, m_mainThread := Some (Join cmd) \<rparr>"
      using True by (simp add: disableWorkerThreadIfEnabled_def)
    then show ?thesis using l t k
      by (simp add: base_inv_def inv_live_def inv_tid_def inv_main_def)
  next
    case False
    then have "disableWorkerThreadIfEnabled cmd s =
        s\<lparr> m_mainThread := Some (if cmd = ShutdownMainThread then MainReturned else WaitAndPop) \<rparr>"
      by (simp add: disableWorkerThreadIfEnabled_def command_done_def)
    then show ?thesis using l t m False assms(3)
      by (simp add: base_inv_def inv_live_def inv_tid_def inv_main_def)
  qed
  show "fault (disableWorkerThreadIfEnabled cmd s) = None"
  proof (cases "m_workerThreadEnabled s")
    case True
    with m assms(3) obtain k where k: "m_workerThread s = Some \<lparr> tid = k, joined = False \<rparr>"
      by (auto simp: inv_main_def)
    then show ?thesis using True assms(2) by (simp add: disableWorkerThreadIfEnabled_def)
  next
    case False
    then show ?thesis using assms(2) by (simp add: disableWorkerThreadIfEnabled_def command_done_def)
  qed
qed

lemma base_inv_join:
  assumes "base_inv s" "fault s = None" "m_mainThread s = Some (Join cmd)"
    "m_workerThread s = Some th" "thread_gone s (tid th)"
  shows "base_inv (command_done cmd (s\<lparr> m_workerThread := Some (th\<lparr> joined := True \<rparr>) \<rparr>))"
proof -
  from assms have m: "inv_main s" and l: "inv_live s" and t: "inv_tid s"
    by (simp_all add: base_inv_def)
  from m assms(3,4) have e: "\<not> m_workerThreadEnabled s" by (simp add: inv_main_def)
  have nl: "\<not> live (worker_threads s ! k)" if "k < length (worker_threads s)" for k
  proof
    assume "live (worker_threads s ! k)"
    with l that assms(4) have "tid th = k" unfolding inv_live_def by fastforce
    with assms(5) \<open>live (worker_threads s ! k)\<close> show False by (simp add: thread_gone_def)
  qed
  show ?thesis
    using nl t e assms(4)
    by (simp add: base_inv_def inv_live_def inv_tid_def inv_main_def command_done_def)
qed

lemma mainThreadWork_inv:
  assumes "base_inv s" "fault s = None"
  shows "base_inv (mainThreadWork b s) \<and> fault (mainThreadWork b s) = None"
proof (cases "m_mainThread s")
  case None
  with assms show ?thesis by (simp add: mainThreadWork_def Let_def)
next
  case (Some pc)
  show ?thesis
  proof (cases pc)
    case WaitAndPop
    show ?thesis
    proof (cases "waitAndPop_ref (m_commandQueue s)")
      case None
      with assms Some WaitAndPop show ?thesis by (simp add: mainThreadWork_def Let_def)
    next
      case (Some cq)
      obtain currentCommand q where cq: "cq = (currentCommand, q)" by (cases cq)
      let ?s1 = "s\<lparr> m_commandQueue := q \<rparr>"
      have s1: "base_inv ?s1" "fault ?s1 = None" "m_mainThread ?s1 = Some WaitAndPop"
        using assms \<open>m_mainThread s = Some pc\<close> WaitAndPop by simp_all
      show ?thesis
      proof (cases currentCommand)
        case EnableWorkerThread
        show ?thesis
        proof (cases "\<not> m_workerThreadEnabled s \<and> \<not> m_isWorkerThreadRunning s")
          case cond: True
          then have e: "\<not> m_workerThreadEnabled ?s1" by simp
          show ?thesis
          proof (cases b)
            case True
            have "mainThreadWork b s = start_worker_thread (?s1\<lparr> m_workerThreadEnabled := True \<rparr>)"
              using assms(2) \<open>m_mainThread s = Some pc\<close> WaitAndPop Some cq EnableWorkerThread True cond
              by (simp add: mainThreadWork_def Let_def)
            with base_inv_start[OF s1(1,2,3) e] show ?thesis by simp
          next
            case False
            have "mainThreadWork b s = ?s1\<lparr> m_workerThreadEnabled := True, m_mainThread := Some MainReturned \<rparr>"
              using assms(2) \<open>m_mainThread s = Some pc\<close> WaitAndPop Some cq EnableWorkerThread False cond
              by (simp add: mainThreadWork_def Let_def)
            then show ?thesis using assms
              by (simp add: base_inv_def inv_live_def inv_tid_def inv_main_def)
          qed
        next
          case False
          then have "mainThreadWork b s = ?s1"
            using assms(2) \<open>m_mainThread s = Some pc\<close> WaitAndPop Some cq EnableWorkerThread
            by (auto simp add: mainThreadWork_def Let_def)
          with s1 show ?thesis by simp
        qed
      next
        case DisableWorkerThread
        have "mainThreadWork b s = disableWorkerThreadIfEnabled DisableWorkerThread ?s1"
          using assms(2) \<open>m_mainThread s = Some pc\<close> WaitAndPop Some cq DisableWorkerThread
          by (simp add: mainThreadWork_def Let_def)
        with base_inv_disable[OF s1] show ?thesis by simp
      next
        case ShutdownMainThread
        have "mainThreadWork b s = disableWorkerThreadIfEnabled ShutdownMainThread ?s1"
          using assms(2) \<open>m_mainThread s = Some pc\<close> WaitAndPop Some cq ShutdownMainThread
          by (simp add: mainThreadWork_def Let_def)
        with base_inv_disable[OF s1] show ?thesis by simp
      qed
    qed
  next
    case (Join cmd)
    show ?thesis
    proof (cases "m_workerThread s")
      case None
      with assms Some Join show ?thesis by (simp add: mainThreadWork_def Let_def)
    next
      case (Some th)
      show ?thesis
      proof (cases "thread_gone s (tid th)")
        case True
        have "mainThreadWork b s = command_done cmd (s\<lparr> m_workerThread := Some (th\<lparr> joined := True \<rparr>) \<rparr>)"
          using assms(2) \<open>m_mainThread s = Some pc\<close> Join Some True by (simp add: mainThreadWork_def Let_def)
        moreover have mj: "m_mainThread s = Some (Join cmd)" using \<open>m_mainThread s = Some pc\<close> Join by simp
        ultimately show ?thesis using base_inv_join[OF assms mj Some True] assms(2)
          by (simp add: command_done_def)
      next
        case False
        with assms \<open>m_mainThread s = Some pc\<close> Join Some show ?thesis by (simp add: mainThreadWork_def Let_def)
      qed
    qed
  next
    case (JoinReplaced old)
    with assms Some show ?thesis by (simp add: mainThreadWork_def Let_def)
  next
    case MainReturned
    with assms Some show ?thesis by (simp add: mainThreadWork_def Let_def)
  qed
qed

lemma base_inv_set_pc:
  assumes "base_inv s" "can_step s k"
  shows "base_inv (set_pc k pc s)"
proof -
  from assms have l: "inv_live s" and t: "inv_tid s" and m: "fault s = None \<longrightarrow> inv_main s"
    and k: "k < length (worker_threads s)" "live (worker_threads s ! k)"
    by (simp_all add: base_inv_def can_step_def)
  from l k have mw: "m_workerThread s = Some \<lparr> tid = k, joined = False \<rparr>"
    by (simp add: inv_live_def)
  have "inv_live (set_pc k pc s)"
    unfolding inv_live_def
  proof (intro allI impI)
    fix j assume j: "j < length (worker_threads (set_pc k pc s))"
      and lv: "live (worker_threads (set_pc k pc s) ! j)"
    show "m_workerThread (set_pc k pc s) = Some \<lparr> tid = j, joined = False \<rparr>"
    proof (cases "j = k")
      case True
      with mw show ?thesis by (simp add: set_pc_def)
    next
      case False
      with j lv have "j < length (worker_threads s)" "live (worker_threads s ! j)"
        by (simp_all add: set_pc_def)
      with l show ?thesis by (simp add: inv_live_def set_pc_def)
    qed
  qed
  moreover have "inv_tid (set_pc k pc s)"
    using t by (simp add: inv_tid_def set_pc_def)
  moreover have "fault (set_pc k pc s) = None \<longrightarrow> inv_main (set_pc k pc s)"
    using m by (simp add: inv_main_def set_pc_def)
  ultimately show ?thesis by (simp add: base_inv_def)
qed

lemma can_step_simps [simp]:
  "can_step (s\<lparr> m_isWorkerThreadRunning := r \<rparr>) k = can_step s k"
  "can_step (s\<lparr> m_sharedContainer := c \<rparr>) k = can_step s k"
  "can_step (s\<lparr> m_commandQueue := q \<rparr>) k = can_step s k"
  by (simp_all add: can_step_def)

lemma fault_set_pc [simp]: "fault (set_pc k pc s) = fault s"
  by (simp add: set_pc_def)

lemma base_inv_Consumer_fields [simp]:
  "base_inv (s\<lparr> calls := c \<rparr>) = base_inv s"
  "can_step (s\<lparr> calls := c \<rparr>) k = can_step s k"
  by (simp_all add: base_inv_def inv_live_def inv_tid_def inv_main_def can_step_def)

lemma base_inv_Producer_fields [simp]:
  "base_inv (s\<lparr> m_vectorItemsQueue := c \<rparr>) = base_inv s"
  "can_step (s\<lparr> m_vectorItemsQueue := c \<rparr>) k = can_step s k"
  by (simp_all add: base_inv_def inv_live_def inv_tid_def inv_main_def can_step_def)

lemma Consumer_workerThreadWork_inv:
  assumes "base_inv s"
  shows "base_inv (Consumer_workerThreadWork k s)"
    and "fault (Consumer_workerThreadWork k s) = fault s"
  using assms
  by (auto simp: Consumer_workerThreadWork_def Let_def base_inv_set_pc split: prod.splits)

lemma Producer_workerThreadWork_inv:
  assumes "base_inv s"
  shows "base_inv (Producer_workerThreadWork k s)"
    and "fault (Producer_workerThreadWork k s) = fault s"
  using assms
  by (auto simp: Producer_workerThreadWork_def Let_def base_inv_set_pc split: prod.splits)

lemma mt_Consumer_workerThreadWork_inv:
  assumes "base_inv s"
  shows "base_inv (mt_Consumer_workerThreadWork k s)"
    and "fault (mt_Consumer_workerThreadWork k s) = fault s"
  using assms
  by (auto simp: mt_Consumer_workerThreadWork_def Let_def base_inv_set_pc split: prod.splits)

lemma mt_Producer_workerThreadWork_inv:
  assumes "base_inv s"
  shows "base_inv (mt_Producer_workerThreadWork k s)"
    and "fault (mt_Producer_workerThreadWork k s) = fault s"
  using assms
  by (auto simp: mt_Producer_workerThreadWork_def Let_def base_inv_set_pc split: prod.splits)

lemma base_inv_mt_start:
  assumes "base_inv s" "fault s = None" "m_mainThread s = Some WaitAndPop" "\<not> m_workerThreadEnabled s"
  shows "base_inv (mt_start_worker_thread (s\<lparr> m_workerThreadEnabled := True \<rparr>))"
proof -
  from assms have j: "\<forall>th. m_workerThread s = Some th \<longrightarrow> joined th"
    by (simp add: base_inv_def inv_main_def)
  then have "mt_start_worker_thread (s\<lparr> m_workerThreadEnabled := True \<rparr>) =
      start_worker_thread (s\<lparr> m_workerThreadEnabled := True \<rparr>)"
    by (simp add: mt_start_worker_thread_def start_worker_thread_def Let_def split: option.splits)
  with base_inv_start(1)[OF assms] show ?thesis by simp
qed

lemma base_inv_mt_interrupt:
  assumes "base_inv s" "fault s = None" "m_mainThread s = Some WaitAndPop"
  shows "base_inv (mt_interruptWorkerThread cmd s)"
proof -
  from assms have m: "inv_main s" and l: "inv_live s" and t: "inv_tid s"
    by (simp_all add: base_inv_def)
  show ?thesis
  proof (cases "m_workerThread s")
    case None
    then have "mt_interruptWorkerThread cmd s =
        s\<lparr> m_workerThreadEnabled := False, fault := Some NullPointerDereference \<rparr>"
      by (simp add: mt_interruptWorkerThread_def)
    then show ?thesis using l t by (simp add: base_inv_def inv_live_def inv_tid_def)
  next
    case (Some th)
    show ?thesis
    proof (cases "joined th")
      case True
      with Some have "mt_interruptWorkerThread cmd s =
          s\<lparr> m_workerThreadEnabled := False,
             m_mainThread := Some (if cmd = ShutdownMainThread then MainReturned else WaitAndPop) \<rparr>"
        by (simp add: mt_interruptWorkerThread_def command_done_def)
      then show ?thesis using l t Some True
        by (simp add: base_inv_def inv_live_def inv_tid_def inv_main_def)
    next
      case False
      with Some have "mt_interruptWorkerThread cmd s =
          s\<lparr> m_workerThreadEnabled := False, m_mainThread := Some (Join cmd) \<rparr>"
        by (simp add: mt_interruptWorkerThread_def)
      moreover from False have "th = \<lparr> tid = tid th, joined = False \<rparr>" by simp
      ultimately show ?thesis using l t Some
        by (simp add: base_inv_def inv_live_def inv_tid_def inv_main_def) metis
    qed
  qed
qed

lemma mt_mainThreadWork_inv:
  assumes "base_inv s"
  shows "base_inv (mt_mainThreadWork b s)"
proof (cases "fault s = None")
  case False
  with assms show ?thesis by (simp add: mt_mainThreadWork_def)
next
  case f: True
  show ?thesis
  proof (cases "m_mainThread s")
    case None
    with assms show ?thesis by (simp add: mt_mainThreadWork_def)
  next
    case (Some pc)
    show ?thesis
    proof (cases pc)
      case WaitAndPop
      show ?thesis
      proof (cases "waitAndPop_ref (m_commandQueue s)")
        case None
        with assms Some WaitAndPop show ?thesis by (simp add: mt_mainThreadWork_def)
      next
        case (Some cq)
        obtain currentCommand q where cq: "cq = (currentCommand, q)" by (cases cq)
        let ?s1 = "s\<lparr> m_commandQueue := q \<rparr>"
        have s1: "base_inv ?s1" "fault ?s1 = None" "m_mainThread ?s1 = Some WaitAndPop"
          using assms f \<open>m_mainThread s = Some pc\<close> WaitAndPop by simp_all
        show ?thesis
        proof (cases currentCommand)
          case EnableWorkerThread
          show ?thesis
          proof (cases "m_workerThreadEnabled s")
            case cond: False
            then have e: "\<not> m_workerThreadEnabled ?s1" by simp
            show ?thesis
            proof (cases b)
              case True
              have "mt_mainThreadWork b s = mt_start_worker_thread (?s1\<lparr> m_workerThreadEnabled := True \<rparr>)"
                using f \<open>m_mainThread s = Some pc\<close> WaitAndPop Some cq EnableWorkerThread True cond
                by (simp add: mt_mainThreadWork_def Let_def)
              with base_inv_mt_start[OF s1(1,2,3) e] show ?thesis by simp
            next
              case False
              have "mt_mainThreadWork b s = ?s1\<lparr> m_workerThreadEnabled := True, m_mainThread := Some MainReturned \<rparr>"
                using f \<open>m_mainThread s = Some pc\<close> WaitAndPop Some cq EnableWorkerThread False cond
                by (simp add: mt_mainThreadWork_def Let_def)
              then show ?thesis using assms
                by (simp add: base_inv_def inv_live_def inv_tid_def inv_main_def)
            qed
          next
            case True
            then have "mt_mainThreadWork b s = ?s1"
              using f \<open>m_mainThread s = Some pc\<close> WaitAndPop Some cq EnableWorkerThread
              by (simp add: mt_mainThreadWork_def Let_def)
            with s1 show ?thesis by simp
          qed
        next
          case DisableWorkerThread
          have "mt_mainThreadWork b s = mt_interruptWorkerThread DisableWorkerThread ?s1"
            using f \<open>m_mainThread s = Some pc\<close> WaitAndPop Some cq DisableWorkerThread
            by (simp add: mt_mainThreadWork_def Let_def)
          with base_inv_mt_interrupt[OF s1] show ?thesis by simp
        next
          case ShutdownMainThread
          have "mt_mainThreadWork b s = mt_interruptWorkerThread ShutdownMainThread ?s1"
            using f \<open>m_mainThread s = Some pc\<close> WaitAndPop Some cq ShutdownMainThread
            by (simp add: mt_mainThreadWork_def Let_def)
          with base_inv_mt_interrupt[OF s1] show ?thesis by simp
        qed
      qed
    next
      case (Join cmd)
      show ?thesis
      proof (cases "m_workerThread s")
        case None
        with assms Some Join show ?thesis by (simp add: mt_mainThreadWork_def)
      next
        case (Some th)
        show ?thesis
        proof (cases "thread_gone s (tid th)")
          case True
          have "mt_mainThreadWork b s = command_done cmd (s\<lparr> m_workerThread := Some (th\<lparr> joined := True \<rparr>) \<rparr>)"
            using f \<open>m_mainThread s = Some pc\<close> Join Some True by (simp add: mt_mainThreadWork_def)
          moreover have mj: "m_mainThread s = Some (Join cmd)" using \<open>m_mainThread s = Some pc\<close> Join by simp
          ultimately show ?thesis using base_inv_join[OF assms f mj Some True] by simp
        next
          case False
          with assms \<open>m_mainThread s = Some pc\<close> Join Some show ?thesis by (simp add: mt_mainThreadWork_def)
        qed
      qed
    next
      case (JoinReplaced old)
      with assms f Some show ?thesis by (simp add: base_inv_def inv_main_def)
    next
      case MainReturned
      with assms Some show ?thesis by (simp add: mt_mainThreadWork_def)
    qed
  qed
qed

lemma no_live_workers:
  assumes "base_inv s" "fault s = None" "m_mainThread s = Some WaitAndPop" "\<not> m_workerThreadEnabled s"
  shows "live_workers s = 0"
proof -
  from assms have j: "\<forall>th. m_workerThread s = Some th \<longrightarrow> joined th" and l: "inv_live s"
    by (simp_all add: base_inv_def inv_main_def)
  from l j have "\<forall>k < length (worker_threads s). \<not> live (worker_threads s ! k)"
    unfolding inv_live_def by fastforce
  then have "filter live (worker_threads s) = []"
    by (auto simp: filter_empty_conv in_set_conv_nth)
  then show ?thesis by (simp add: live_workers_def)
qed

lemma length_command_done [simp]:
  "worker_threads (command_done cmd s) = worker_threads s"
  by (simp add: command_done_def)

lemma length_disableWorkerThreadIfEnabled [simp]:
  "worker_threads (disableWorkerThreadIfEnabled cmd s) = worker_threads s"
  by (simp add: disableWorkerThreadIfEnabled_def Let_def split: option.splits)

lemma length_mt_interruptWorkerThread [simp]:
  "worker_threads (mt_interruptWorkerThread cmd s) = worker_threads s"
  by (simp add: mt_interruptWorkerThread_def Let_def split: option.splits)

lemma mainThreadWork_same_threads:
  assumes "fault s \<noteq> None \<or> m_mainThread s \<noteq> Some WaitAndPop \<or> m_workerThreadEnabled s"
  shows "worker_threads (mainThreadWork b s) = worker_threads s"
proof (cases "fault s = None")
  case False
  then show ?thesis by (simp add: mainThreadWork_def)
next
  case f: True
  show ?thesis
  proof (cases "m_mainThread s = Some WaitAndPop")
    case False
    then show ?thesis using f
      by (simp add: mainThreadWork_def split: option.splits main_pc.splits)
  next
    case True
    with assms f have "m_workerThreadEnabled s" by simp
    with True f show ?thesis
      by (simp add: mainThreadWork_def Let_def split: option.splits prod.splits Command.splits)
  qed
qed

lemma mt_mainThreadWork_same_threads:
  assumes "fault s \<noteq> None \<or> m_mainThread s \<noteq> Some WaitAndPop \<or> m_workerThreadEnabled s"
  shows "worker_threads (mt_mainThreadWork b s) = worker_threads s"
proof (cases "fault s = None")
  case False
  then show ?thesis by (simp add: mt_mainThreadWork_def)
next
  case f: True
  show ?thesis
  proof (cases "m_mainThread s = Some WaitAndPop")
    case False
    then show ?thesis using f
      by (simp add: mt_mainThreadWork_def split: option.splits main_pc.splits)
  next
    case True
    with assms f have "m_workerThreadEnabled s" by simp
    with True f show ?thesis
      by (simp add: mt_mainThreadWork_def Let_def split: option.splits prod.splits Command.splits)
  qed
qed

lemma mainThreadWork_spawn:
  assumes "base_inv s" "length (worker_threads (mainThreadWork b s)) \<noteq> length (worker_threads s)"
  shows "live_workers s = 0"
proof -
  have "\<not> (fault s \<noteq> None \<or> m_mainThread s \<noteq> Some WaitAndPop \<or> m_workerThreadEnabled s)"
  proof
    assume "fault s \<noteq> None \<or> m_mainThread s \<noteq> Some WaitAndPop \<or> m_workerThreadEnabled s"
    from mainThreadWork_same_threads[OF this, of b] assms(2) show False by simp
  qed
  then have "fault s = None" "m_mainThread s = Some WaitAndPop" "\<not> m_workerThreadEnabled s"
    by blast+
  with no_live_workers[OF assms(1)] show ?thesis by blast
qed

lemma mt_mainThreadWork_spawn:
  assumes "base_inv s" "length (worker_threads (mt_mainThreadWork b s)) \<noteq> length (worker_threads s)"
  shows "live_workers s = 0"
proof -
  have "\<not> (fault s \<noteq> None \<or> m_mainThread s \<noteq> Some WaitAndPop \<or> m_workerThreadEnabled s)"
  proof
    assume "fault s \<noteq> None \<or> m_mainThread s \<noteq> Some WaitAndPop \<or> m_workerThreadEnabled s"
    from mt_mainThreadWork_same_threads[OF this, of b] assms(2) show False by simp
  qed
  then have "fault s = None" "m_mainThread s = Some WaitAndPop" "\<not> m_workerThreadEnabled s"
    by blast+
  with no_live_workers[OF assms(1)] show ?thesis by blast
qed

lemma base_inv_ctor:
  "base_inv (Consumer_ctor b d sc f)" "fault (Consumer_ctor b d sc f) = None"
  "base_inv (Producer_ctor b sc)" "fault (Producer_ctor b sc) = None"
  by (simp_all add: Consumer_ctor_def Producer_ctor_def runMainThread_def base_inv_def
      inv_live_def inv_tid_def inv_main_def)

lemma fault_calls [simp]:
  "fault (enableWorkerThread s) = fault s" "fault (disableWorkerThread s) = fault s"
  by (simp_all add: enableWorkerThread_def disableWorkerThread_def)

lemma mainThreadWork_base_inv: "base_inv s \<Longrightarrow> base_inv (mainThreadWork b s)"
  using mainThreadWork_inv[of s b] by (cases "fault s = None") (simp_all add: mainThreadWork_def)

lemma command_done_main: "m_mainThread (command_done cmd s) \<noteq> None"
  by (simp add: command_done_def)

lemma disableWorkerThreadIfEnabled_main:
  "m_mainThread s \<noteq> None \<Longrightarrow> m_mainThread (disableWorkerThreadIfEnabled cmd s) \<noteq> None"
  by (simp add: disableWorkerThreadIfEnabled_def command_done_def Let_def split: option.splits)

lemma start_worker_thread_main [simp]:
  "m_mainThread (start_worker_thread s) = m_mainThread s"
  by (simp add: start_worker_thread_def Let_def split: option.splits)

lemma mainThreadWork_main:
  "(m_mainThread (mainThreadWork b s) = None) = (m_mainThread s = None)"
proof (cases "fault s = None \<and> m_mainThread s \<noteq> None")
  case False
  then show ?thesis by (auto simp: mainThreadWork_def)
next
  case True
  then obtain pc where pc: "m_mainThread s = Some pc" and f: "fault s = None" by auto
  have "m_mainThread (mainThreadWork b s) \<noteq> None"
  proof (cases pc)
    case WaitAndPop
    show ?thesis
    proof (cases "waitAndPop_ref (m_commandQueue s)")
      case None
      with pc f WaitAndPop show ?thesis by (simp add: mainThreadWork_def)
    next
      case (Some cq)
      obtain currentCommand q where cq: "cq = (currentCommand, q)" by (cases cq)
      have "m_mainThread (s\<lparr> m_commandQueue := q \<rparr>) \<noteq> None" using pc by simp
      from disableWorkerThreadIfEnabled_main[OF this] pc f WaitAndPop Some cq show ?thesis
        by (cases currentCommand) (simp_all add: mainThreadWork_def Let_def)
    qed
  next
    case (Join cmd)
    with pc f show ?thesis
      by (simp add: mainThreadWork_def command_done_def split: option.splits)
  next
    case (JoinReplaced n)
    with pc f show ?thesis by (simp add: mainThreadWork_def)
  next
    case MainReturned
    with pc f show ?thesis by (simp add: mainThreadWork_def)
  qed
  with pc show ?thesis by simp
qed

lemma mainThreadWork_fault:
  assumes "base_inv s" "inv_fault t s"
  shows "inv_fault t (mainThreadWork b s)"
proof (cases "fault s = None")
  case True
  with mainThreadWork_inv[OF assms(1) True, of b] assms(2) mainThreadWork_main[of b s]
  show ?thesis by (simp add: inv_fault_def)
next
  case False
  with assms(2) show ?thesis by (simp add: mainThreadWork_def)
qed

lemma inv_fault_frame [simp]:
  "inv_fault t (s\<lparr> m_commandQueue := q \<rparr>) = inv_fault t s"
  "inv_fault t (s\<lparr> m_sharedContainer := c \<rparr>) = inv_fault t s"
  by (simp_all add: inv_fault_def)

lemma shutdownMainThread_fault: "inv_fault t s \<Longrightarrow> inv_fault t (shutdownMainThread s)"
  by (cases "m_mainThread s") (auto simp: shutdownMainThread_def inv_fault_def)

lemma worker_main [simp]:
  "m_mainThread (Consumer_workerThreadWork k s) = m_mainThread s"
  "m_mainThread (Producer_workerThreadWork k p) = m_mainThread p"
  by (simp_all add: Consumer_workerThreadWork_def Producer_workerThreadWork_def set_pc_def Let_def
        split: prod.splits)

lemma Consumer_event_inv:
  "base_inv s \<and> inv_fault t s \<Longrightarrow>
     base_inv (Consumer_event e s) \<and> inv_fault t (Consumer_event e s)"
proof (cases e)
  case (WorkerThread k)
  assume "base_inv s \<and> inv_fault t s"
  with Consumer_workerThreadWork_inv[of s k] show ?thesis
    by (simp add: WorkerThread inv_fault_def)
qed (simp_all add: base_inv_calls base_inv_shutdown mainThreadWork_base_inv mainThreadWork_fault
       shutdownMainThread_fault enableWorkerThread_def disableWorkerThread_def)

lemma Producer_event_inv:
  "base_inv s \<and> inv_fault t s \<Longrightarrow>
     base_inv (Producer_event e s) \<and> inv_fault t (Producer_event e s)"
proof (cases e)
  case (WorkerThread k)
  assume "base_inv s \<and> inv_fault t s"
  with Producer_workerThreadWork_inv[of s k] show ?thesis
    by (simp add: WorkerThread inv_fault_def)
next
  case (Call_push b)
  assume "base_inv s \<and> inv_fault t s"
  then show ?thesis by (simp add: Call_push Producer_push_def inv_fault_def)
qed (simp_all add: base_inv_calls base_inv_shutdown mainThreadWork_base_inv mainThreadWork_fault
       shutdownMainThread_fault enableWorkerThread_def disableWorkerThread_def)

lemma mt_Consumer_event_inv: "base_inv s \<Longrightarrow> base_inv (mt_Consumer_event e s)"
  by (cases e)
     (simp_all add: base_inv_calls base_inv_shutdown mt_mainThreadWork_inv
        mt_Consumer_workerThreadWork_inv)

lemma mt_Producer_event_inv: "base_inv s \<Longrightarrow> base_inv (mt_Producer_event e s)"
  by (cases e)
     (simp_all add: base_inv_calls base_inv_shutdown mt_mainThreadWork_inv
        mt_Producer_workerThreadWork_inv Producer_push_def)

lemma Consumer_run_inv:
  "base_inv s \<and> inv_fault t s \<Longrightarrow>
     base_inv (fold Consumer_event evs s) \<and> inv_fault t (fold Consumer_event evs s)"
proof (induction evs arbitrary: s)
  case Nil
  then show ?case by simp
next
  case (Cons e evs)
  from Cons.IH[OF Consumer_event_inv[OF Cons.prems]] show ?case by simp
qed

lemma Producer_run_inv:
  "base_inv s \<and> inv_fault t s \<Longrightarrow>
     base_inv (fold Producer_event evs s) \<and> inv_fault t (fold Producer_event evs s)"
proof (induction evs arbitrary: s)
  case Nil
  then show ?case by simp
next
  case (Cons e evs)
  from Cons.IH[OF Producer_event_inv[OF Cons.prems]] show ?case by simp
qed

lemma inv_fault_ctor:
  "inv_fault b (Consumer_ctor b d sc f)" "inv_fault b (Producer_ctor b sc)"
  by (simp_all add: Consumer_ctor_def Producer_ctor_def runMainThread_def inv_fault_def)

lemma mt_Consumer_run_inv: "base_inv s \<Longrightarrow> base_inv (fold mt_Consumer_event evs s)"
  by (induction evs arbitrary: s) (simp_all add: mt_Consumer_event_inv)

lemma mt_Producer_run_inv: "base_inv s \<Longrightarrow> base_inv (fold mt_Producer_event evs s)"
  by (induction evs arbitrary: s) (simp_all add: mt_Producer_event_inv)

lemma worker_threads_calls [simp]:
  "worker_threads (enableWorkerThread s) = worker_threads s"
  "worker_threads (disableWorkerThread s) = worker_threads s"
  "worker_threads (shutdownMainThread s) = worker_threads s"
  by (simp_all add: enableWorkerThread_def disableWorkerThread_def shutdownMainThread_def
        Let_def split: option.splits)

lemma length_set_pc [simp]: "length (worker_threads (set_pc k pc s)) = length (worker_threads s)"
  by (simp add: set_pc_def)

lemma length_worker_steps [simp]:
  "length (worker_threads (Consumer_workerThreadWork k s)) = length (worker_threads s)"
  "length (worker_threads (mt_Consumer_workerThreadWork k s)) = length (worker_threads s)"
  "length (worker_threads (Producer_workerThreadWork k p)) = length (worker_threads p)"
  "length (worker_threads (mt_Producer_workerThreadWork k p)) = length (worker_threads p)"
  by (simp_all add: Consumer_workerThreadWork_def mt_Consumer_workerThreadWork_def
      Producer_workerThreadWork_def mt_Producer_workerThreadWork_def Let_def split: prod.splits)

lemma Consumer_event_spawn:
  "base_inv s \<Longrightarrow> length (worker_threads (Consumer_event e s)) \<noteq> length (worker_threads s) \<Longrightarrow>
     live_workers s = 0"
  by (cases e) (simp_all add: mainThreadWork_spawn)

lemma mt_Consumer_event_spawn:
  "base_inv s \<Longrightarrow> length (worker_threads (mt_Consumer_event e s)) \<noteq> length (worker_threads s) \<Longrightarrow>
     live_workers s = 0"
  by (cases e) (simp_all add: mt_mainThreadWork_spawn)

lemma Producer_event_spawn:
  "base_inv s \<Longrightarrow> length (worker_threads (Producer_event e s)) \<noteq> length (worker_threads s) \<Longrightarrow>
     live_workers s = 0"
  by (cases e) (simp_all add: mainThreadWork_spawn Producer_push_def)

lemma mt_Producer_event_spawn:
  "base_inv s \<Longrightarrow> length (worker_threads (mt_Producer_event e s)) \<noteq> length (worker_threads s) \<Longrightarrow>
     live_workers s = 0"
  by (cases e) (simp_all add: mt_mainThreadWork_spawn Producer_push_def)

text \<open>
  C5. In every state that a controller of either variant and either role reaches from its
  constructor, by any sequence of calls of \<^verbatim>\<open>enableWorkerThread\<close>,
  \<^verbatim>\<open>disableWorkerThread\<close> and \<^verbatim>\<open>shutdownMainThread\<close>, pushes, steps of the main
  thread and steps of worker threads (thread starts failing or not), at most one worker
  thread is running \<^verbatim>\<open>workerThreadWork\<close>; and an event that starts a worker thread
  happens only in a state in which no worker thread is running. In the first variant no run
  reaches the destruction of a joinable thread, and none reaches a null dereference if the
  constructor could start the main thread.
\<close>

theorem at_most_one_live_worker:
  "live_workers (fold Consumer_event evs (Consumer_ctor b d sc f)) \<le> 1
 \<and> live_workers (fold Producer_event pevs (Producer_ctor b sc)) \<le> 1
 \<and> live_workers (fold mt_Consumer_event evs (Consumer_ctor b d sc f)) \<le> 1
 \<and> live_workers (fold mt_Producer_event pevs (Producer_ctor b sc)) \<le> 1
 \<and> fault (fold Consumer_event evs (Consumer_ctor b d sc f)) \<noteq> Some Terminate
 \<and> fault (fold Producer_event pevs (Producer_ctor b sc)) \<noteq> Some Terminate
 \<and> (b \<longrightarrow> fault (fold Consumer_event evs (Consumer_ctor b d sc f)) = None)
 \<and> (b \<longrightarrow> fault (fold Producer_event pevs (Producer_ctor b sc)) = None)
 \<and> (length (worker_threads (Consumer_event e (fold Consumer_event evs (Consumer_ctor b d sc f))))
        \<noteq> length (worker_threads (fold Consumer_event evs (Consumer_ctor b d sc f)))
      \<longrightarrow> live_workers (fold Consumer_event evs (Consumer_ctor b d sc f)) = 0)
 \<and> (length (worker_threads (Producer_event pe (fold Producer_event pevs (Producer_ctor b sc))))
        \<noteq> length (worker_threads (fold Producer_event pevs (Producer_ctor b sc)))
      \<longrightarrow> live_workers (fold Producer_event pevs (Producer_ctor b sc)) = 0)
 \<and> (length (worker_threads (mt_Consumer_event e (fold mt_Consumer_event evs (Consumer_ctor b d sc f))))
        \<noteq> length (worker_threads (fold mt_Consumer_event evs (Consumer_ctor b d sc f)))
      \<longrightarrow> live_workers (fold mt_Consumer_event evs (Consumer_ctor b d sc f)) = 0)
 \<and> (length (worker_threads (mt_Producer_event pe (fold mt_Producer_event pevs (Producer_ctor b sc))))
        \<noteq> length (worker_threads (fold mt_Producer_event pevs (Producer_ctor b sc)))
      \<longrightarrow> live_workers (fold mt_Producer_event pevs (Producer_ctor b sc)) = 0)"
proof -
  have c: "base_inv (fold Consumer_event evs (Consumer_ctor b d sc f))"
          "inv_fault b (fold Consumer_event evs (Consumer_ctor b d sc f))"
    using Consumer_run_inv[of "Consumer_ctor b d sc f" b evs]
    by (simp_all add: base_inv_ctor inv_fault_ctor)
  have p: "base_inv (fold Producer_event pevs (Producer_ctor b sc))"
          "inv_fault b (fold Producer_event pevs (Producer_ctor b sc))"
    using Producer_run_inv[of "Producer_ctor b sc" b pevs]
    by (simp_all add: base_inv_ctor inv_fault_ctor)
  have mc: "base_inv (fold mt_Consumer_event evs (Consumer_ctor b d sc f))"
    by (rule mt_Consumer_run_inv) (rule base_inv_ctor)
  have mp: "base_inv (fold mt_Producer_event pevs (Producer_ctor b sc))"
    by (rule mt_Producer_run_inv) (rule base_inv_ctor)
  show ?thesis
  proof (intro conjI impI)
    show "live_workers (fold Consumer_event evs (Consumer_ctor b d sc f)) \<le> 1"
      using c(1) by (rule base_inv_live_workers)
    show "live_workers (fold Producer_event pevs (Producer_ctor b sc)) \<le> 1"
      using p(1) by (rule base_inv_live_workers)
    show "live_workers (fold mt_Consumer_event evs (Consumer_ctor b d sc f)) \<le> 1"
      using mc by (rule base_inv_live_workers)
    show "live_workers (fold mt_Producer_event pevs (Producer_ctor b sc)) \<le> 1"
      using mp by (rule base_inv_live_workers)
    show "fault (fold Consumer_event evs (Consumer_ctor b d sc f)) \<noteq> Some Terminate"
      using c(2) by (auto simp: inv_fault_def)
    show "fault (fold Producer_event pevs (Producer_ctor b sc)) \<noteq> Some Terminate"
      using p(2) by (auto simp: inv_fault_def)
  next
    assume b
    with c(2) show "fault (fold Consumer_event evs (Consumer_ctor b d sc f)) = None"
      by (simp add: inv_fault_def)
  next
    assume b
    with p(2) show "fault (fold Producer_event pevs (Producer_ctor b sc)) = None"
      by (simp add: inv_fault_def)
  next
    assume "length (worker_threads (Consumer_event e (fold Consumer_event evs (Consumer_ctor b d sc f))))
        \<noteq> length (worker_threads (fold Consumer_event evs (Consumer_ctor b d sc f)))"
    with c(1) show "live_workers (fold Consumer_event evs (Consumer_ctor b d sc f)) = 0"
      by (rule Consumer_event_spawn)
  next
    assume "length (worker_threads (Producer_event pe (fold Producer_event pevs (Producer_ctor b sc))))
        \<noteq> length (worker_threads (fold Producer_event pevs (Producer_ctor b sc)))"
    with p(1) show "live_workers (fold Producer_event pevs (Producer_ctor b sc)) = 0"
      by (rule Producer_event_spawn)
  next
    assume "length (worker_threads (mt_Consumer_event e (fold mt_Consumer_event evs (Consumer_ctor b d sc f))))
        \<noteq> length (worker_threads (fold mt_Consumer_event evs (Consumer_ctor b d sc f)))"
    with mc show "live_workers (fold mt_Consumer_event evs (Consumer_ctor b d sc f)) = 0"
      by (rule mt_Consumer_event_spawn)
  next
    assume "length (worker_threads (mt_Producer_event pe (fold mt_Producer_event pevs (Producer_ctor b sc))))
        \<noteq> length (worker_threads (fold mt_Producer_event pevs (Producer_ctor b sc)))"
    with mp show "live_workers (fold mt_Producer_event pevs (Producer_ctor b sc)) = 0"
      by (rule mt_Producer_event_spawn)
  qed
qed

lemmas ctl_defs = Consumer_ctor_def Producer_ctor_def runMainThread_def enableWorkerThread_def disableWorkerThread_def
  shutdownMainThread_def pushAndNotify_def push_def make_shared_def mainThreadWork_def mt_mainThreadWork_def
  waitAndPop_ref_def tryPop_ref_def std_empty_def getCurrent_def deref_def remove_current_def
  mt_interruptWorkerThread_def disableWorkerThreadIfEnabled_def command_done_def start_worker_thread_def
  mt_start_worker_thread_def thread_gone_def live_def can_step_def set_pc_def
  Consumer_workerThreadWork_def mt_Consumer_workerThreadWork_def Producer_workerThreadWork_def
  mt_Producer_workerThreadWork_def Producer_push_def held_def live_workers_def

theorem at_most_one_live_worker_witness:
  "worker_threads (fold Consumer_event
      [Call_enableWorkerThread, MainThread True, WorkerThread 0, Call_disableWorkerThread,
       MainThread True, WorkerThread 0, MainThread True, Call_enableWorkerThread]
      (Consumer_ctor True (0 :: int) \<lparr> m_adapter = Queue [], objects = [] \<rparr> (\<lambda>x. True))) = [Returned]
 \<and> worker_threads (fold Consumer_event
      [Call_enableWorkerThread, MainThread True, WorkerThread 0, Call_disableWorkerThread,
       MainThread True, WorkerThread 0, MainThread True, Call_enableWorkerThread, MainThread True]
      (Consumer_ctor True (0 :: int) \<lparr> m_adapter = Queue [], objects = [] \<rparr> (\<lambda>x. True)))
      = [Returned, LoopTop]
 \<and> live_workers (fold Consumer_event
      [Call_enableWorkerThread, MainThread True, WorkerThread 0, Call_disableWorkerThread,
       MainThread True, WorkerThread 0, MainThread True, Call_enableWorkerThread]
      (Consumer_ctor True (0 :: int) \<lparr> m_adapter = Queue [], objects = [] \<rparr> (\<lambda>x. True))) = 0
 \<and> worker_threads (fold Consumer_event
      [Call_enableWorkerThread, MainThread True, Call_shutdownMainThread, MainThread True]
      (Consumer_ctor True (0 :: int) \<lparr> m_adapter = Queue [], objects = [] \<rparr> (\<lambda>x. True))) = [LoopTop]
 \<and> m_mainThread (fold Consumer_event
      [Call_enableWorkerThread, MainThread True, Call_shutdownMainThread, MainThread True]
      (Consumer_ctor True (0 :: int) \<lparr> m_adapter = Queue [], objects = [] \<rparr> (\<lambda>x. True)))
      = Some (Join ShutdownMainThread)
 \<and> live_workers (fold Consumer_event
      [Call_enableWorkerThread, MainThread True, Call_shutdownMainThread, MainThread True]
      (Consumer_ctor True (0 :: int) \<lparr> m_adapter = Queue [], objects = [] \<rparr> (\<lambda>x. True))) \<le> 1
 \<and> fault (fold Consumer_event
      [Call_enableWorkerThread, MainThread True, Call_shutdownMainThread, MainThread True]
      (Consumer_ctor True (0 :: int) \<lparr> m_adapter = Queue [], objects = [] \<rparr> (\<lambda>x. True))) = None
 \<and> m_mainThread (fold Consumer_event
      [Call_enableWorkerThread, MainThread True, Call_shutdownMainThread, MainThread True,
       WorkerThread 0, MainThread True, Call_enableWorkerThread, MainThread True]
      (Consumer_ctor True (0 :: int) \<lparr> m_adapter = Queue [], objects = [] \<rparr> (\<lambda>x. True)))
      = Some MainReturned
 \<and> worker_threads (fold Consumer_event
      [Call_enableWorkerThread, MainThread True, Call_shutdownMainThread, MainThread True,
       WorkerThread 0, MainThread True, Call_enableWorkerThread, MainThread True]
      (Consumer_ctor True (0 :: int) \<lparr> m_adapter = Queue [], objects = [] \<rparr> (\<lambda>x. True)))
      = [Returned]"
proof -
  let ?evs = "[Call_enableWorkerThread, MainThread True, WorkerThread 0, Call_disableWorkerThread,
       MainThread True, WorkerThread 0, MainThread True, Call_enableWorkerThread] :: int event list"
  let ?sevs = "[Call_enableWorkerThread, MainThread True, Call_shutdownMainThread, MainThread True]
       :: int event list"
  let ?sc = "\<lparr> m_adapter = Queue [], objects = [] :: int list \<rparr>"
  let ?s0 = "Consumer_ctor True (0 :: int) ?sc (\<lambda>x. True)"
  have 1: "worker_threads (fold Consumer_event ?evs ?s0) = [Returned]"
    by (simp add: ctl_defs)
  have 2: "worker_threads (Consumer_event (MainThread True) (fold Consumer_event ?evs ?s0)) = [Returned, LoopTop]"
    by (simp add: ctl_defs)
  have 3: "length (worker_threads (Consumer_event (MainThread True) (fold Consumer_event ?evs ?s0)))
        \<noteq> length (worker_threads (fold Consumer_event ?evs ?s0))"
    unfolding 1 2 by simp
  from at_most_one_live_worker[where evs = ?evs and b = True and d = 0 and sc = ?sc
      and f = "\<lambda>x. True" and pevs = "[]" and e = "MainThread True"
      and pe = Call_enableWorkerThread] 3
  have 4: "live_workers (fold Consumer_event ?evs ?s0) = 0" by blast
  have 5: "fold Consumer_event (?evs @ [MainThread True]) ?s0
         = Consumer_event (MainThread True) (fold Consumer_event ?evs ?s0)"
    by (simp only: fold_append fold.simps comp_def id_def)
  from at_most_one_live_worker[where evs = ?sevs and b = True and d = 0 and sc = ?sc
      and f = "\<lambda>x. True" and pevs = "[]" and e = "MainThread True"
      and pe = Call_enableWorkerThread]
  have 6: "live_workers (fold Consumer_event ?sevs ?s0) \<le> 1"
    "fault (fold Consumer_event ?sevs ?s0) = None" by blast+
  have 7: "worker_threads (fold Consumer_event ?sevs ?s0) = [LoopTop]"
    "m_mainThread (fold Consumer_event ?sevs ?s0) = Some (Join ShutdownMainThread)"
    by (simp_all add: ctl_defs)
  have 8: "m_mainThread (fold Consumer_event
      [Call_enableWorkerThread, MainThread True, Call_shutdownMainThread, MainThread True,
       WorkerThread 0, MainThread True, Call_enableWorkerThread, MainThread True] ?s0)
      = Some MainReturned"
    "worker_threads (fold Consumer_event
      [Call_enableWorkerThread, MainThread True, Call_shutdownMainThread, MainThread True,
       WorkerThread 0, MainThread True, Call_enableWorkerThread, MainThread True] ?s0)
      = [Returned]"
    by (simp_all add: ctl_defs)
  from 1 2 4 5 6 7 8 show ?thesis by simp
qed


subsection \<open>The main thread\<close>

lemma mainThreadWork_follows_state_machine:
  assumes "fault s = None" "m_mainThread s = Some WaitAndPop"
    and "waitAndPop_ref (m_commandQueue s) = Some (cmd, q)"
  shows "cmd = EnableWorkerThread \<Longrightarrow> m_workerThreadEnabled s \<Longrightarrow>
           mainThreadWork b s = s\<lparr> m_commandQueue := q \<rparr>"
    and "cmd = DisableWorkerThread \<Longrightarrow> \<not> m_workerThreadEnabled s \<Longrightarrow>
           mainThreadWork b s = s\<lparr> m_commandQueue := q \<rparr>"
    and "cmd = ShutdownMainThread \<Longrightarrow> \<not> m_workerThreadEnabled s \<Longrightarrow>
           mainThreadWork b s = s\<lparr> m_commandQueue := q, m_mainThread := Some MainReturned \<rparr>"
    and "cmd = ShutdownMainThread \<or> cmd = DisableWorkerThread \<Longrightarrow> m_workerThreadEnabled s \<Longrightarrow>
         m_workerThread s = Some th \<Longrightarrow> \<not> joined th \<Longrightarrow>
           mainThreadWork b s =
             s\<lparr> m_commandQueue := q, m_workerThreadEnabled := False, m_mainThread := Some (Join cmd) \<rparr>"
  using assms
  by (auto simp: mainThreadWork_def disableWorkerThreadIfEnabled_def command_done_def Let_def)

lemma mainThreadWork_join:
  assumes "fault s = None" "m_mainThread s = Some (Join cmd)" "m_workerThread s = Some th"
  shows "thread_gone s (tid th) \<Longrightarrow>
           mainThreadWork b s =
             s\<lparr> m_workerThread := Some (th\<lparr> joined := True \<rparr>),
                m_mainThread := Some (if cmd = ShutdownMainThread then MainReturned else WaitAndPop) \<rparr>"
    and "\<not> thread_gone s (tid th) \<Longrightarrow> mainThreadWork b s = s"
  using assms by (simp_all add: mainThreadWork_def command_done_def)

lemma mainThreadWork_returned:
  "m_mainThread s = Some MainReturned \<Longrightarrow> mainThreadWork b s = s"
  "m_mainThread s = Some MainReturned \<Longrightarrow> mt_mainThreadWork b s = s"
  by (simp_all add: mainThreadWork_def mt_mainThreadWork_def)

lemma mt_mainThreadWork_null:
  assumes "fault s = None" "m_mainThread s = Some WaitAndPop"
    and "waitAndPop_ref (m_commandQueue s) = Some (cmd, q)"
    and "cmd = DisableWorkerThread \<or> cmd = ShutdownMainThread" "m_workerThread s = None"
  shows "fault (mt_mainThreadWork b s) = Some NullPointerDereference"
  using assms by (auto simp: mt_mainThreadWork_def mt_interruptWorkerThread_def Let_def)

text \<open>
  C4. The main thread of the first variant follows the state machine (the lemmas above): a
  command to enable is dropped while the flag is set, a command to disable is dropped while
  it is clear, a command to shut down clears the flag and joins the worker if the flag is
  set, and then \<^verbatim>\<open>mainThreadWork\<close> has returned and no step of it changes anything.
  The main thread of the second variant calls \<^verbatim>\<open>interruptWorkerThread\<close> for every
  command to disable or shut down. On a controller that never started a worker thread,
  \<^verbatim>\<open>m_workerThread\<close> is null and \<^verbatim>\<open>m_workerThread->joinable()\<close> dereferences it:
  for a command to disable, and for the command to shut down that the destructor sends. The
  first variant, on the same inputs, stays in \<^verbatim>\<open>waitAndPop\<close> and returns.
\<close>

theorem mt_Disable_while_never_enabled:
  "fault (mt_mainThreadWork True (disableWorkerThread
      (Consumer_ctor True (0 :: int) \<lparr> m_adapter = Queue [], objects = [] \<rparr> (\<lambda>x. True))))
     = Some NullPointerDereference
 \<and> fault (mt_mainThreadWork True (shutdownMainThread
      (Producer_ctor True (\<lparr> m_adapter = Queue [], objects = [] \<rparr> :: int ThreadsafeSTLAdapter))))
     = Some NullPointerDereference
 \<and> fault (mainThreadWork True (disableWorkerThread
      (Consumer_ctor True (0 :: int) \<lparr> m_adapter = Queue [], objects = [] \<rparr> (\<lambda>x. True)))) = None
 \<and> m_mainThread (mainThreadWork True (disableWorkerThread
      (Consumer_ctor True (0 :: int) \<lparr> m_adapter = Queue [], objects = [] \<rparr> (\<lambda>x. True))))
     = Some WaitAndPop
 \<and> m_mainThread (mainThreadWork True (shutdownMainThread
      (Producer_ctor True (\<lparr> m_adapter = Queue [], objects = [] \<rparr> :: int ThreadsafeSTLAdapter))))
     = Some MainReturned"
  by (simp add: ctl_defs)

text \<open>
  C9. When the main thread cannot be started, \<^verbatim>\<open>runMainThread\<close> catches the exception
  and leaves \<^verbatim>\<open>m_mainThread\<close> null. \<^verbatim>\<open>enableWorkerThread\<close> and
  \<^verbatim>\<open>disableWorkerThread\<close> then only push commands. The destructor calls
  \<^verbatim>\<open>shutdownMainThread\<close>, which evaluates \<^verbatim>\<open>m_mainThread->joinable()\<close> on the null
  pointer.
\<close>

theorem shutdown_after_failed_main_thread_start:
  "m_mainThread (Consumer_ctor False (0 :: int) \<lparr> m_adapter = Queue [], objects = [] \<rparr> (\<lambda>x. True)) = None
 \<and> fault (disableWorkerThread (enableWorkerThread
      (Consumer_ctor False (0 :: int) \<lparr> m_adapter = Queue [], objects = [] \<rparr> (\<lambda>x. True)))) = None
 \<and> fault (shutdownMainThread (disableWorkerThread (enableWorkerThread
      (Consumer_ctor False (0 :: int) \<lparr> m_adapter = Queue [], objects = [] \<rparr> (\<lambda>x. True)))))
     = Some NullPointerDereference
 \<and> fault (shutdownMainThread
      (Producer_ctor False (\<lparr> m_adapter = Queue [], objects = [] \<rparr> :: int ThreadsafeSTLAdapter)))
     = Some NullPointerDereference"
  by (simp add: ctl_defs)

lemma shutdownMainThread_null:
  "m_mainThread s = None \<Longrightarrow> fault (shutdownMainThread s) = Some NullPointerDereference"
  by (simp add: shutdownMainThread_def Let_def)

lemma runMainThread_fails: "m_mainThread s = None \<Longrightarrow> m_mainThread (runMainThread False s) = None"
  by (simp add: runMainThread_def)

text \<open>
  When a worker thread cannot be started, the exception ends \<^verbatim>\<open>mainThreadWork\<close>:
  later commands stay in the queue, and \<^verbatim>\<open>shutdownMainThread\<close> finds the main thread
  gone and returns.
\<close>

lemma worker_start_failure:
  "(let s = fold Consumer_event [Call_enableWorkerThread, MainThread False, Call_disableWorkerThread, MainThread True]
       (Consumer_ctor True (0 :: int) \<lparr> m_adapter = Queue [], objects = [] \<rparr> (\<lambda>x. True))
    in m_mainThread s = Some MainReturned \<and> fault s = None \<and> m_workerThreadEnabled s
       \<and> shutdownMainThread_returned (shutdownMainThread s))"
  by (simp add: ctl_defs shutdownMainThread_returned_def)

subsection \<open>A callable that throws\<close>

lemma funpow_fixed: "f x = x \<Longrightarrow> (f ^^ n) x = x"
  by (induction n) simp_all

lemma worker_gone_no_step:
  "k < length (worker_threads s) \<Longrightarrow> \<not> live (worker_threads s ! k) \<Longrightarrow>
     Consumer_workerThreadWork k s = s \<and> mt_Consumer_workerThreadWork k s = s"
  by (simp add: Consumer_workerThreadWork_def mt_Consumer_workerThreadWork_def can_step_def)

lemma Consumer_callable_fails:
  assumes "can_step s k" "m_workerThreadEnabled s"
    and "\<not> std_empty (m_adapter (m_sharedContainer s))"
    and "\<not> m_callable s (deref (objects (m_sharedContainer s)) (getCurrent (m_adapter (m_sharedContainer s))))"
  shows "Consumer_workerThreadWork k s =
      s\<lparr> m_isWorkerThreadRunning := (if worker_threads s ! k = LoopTop then True else m_isWorkerThreadRunning s),
         m_sharedContainer := remove_current (m_sharedContainer s),
         calls := calls s @ [deref (objects (m_sharedContainer s)) (getCurrent (m_adapter (m_sharedContainer s)))],
         worker_threads := (worker_threads s)[k := Threw] \<rparr>"
  using assms
  by (simp add: Consumer_workerThreadWork_def Let_def tryPop_ref_def set_pc_def)

lemma mt_Consumer_callable_fails:
  assumes "can_step s k" "m_workerThreadEnabled s"
    and "\<not> std_empty (m_adapter (m_sharedContainer s))"
    and "\<not> m_callable s (deref (objects (m_sharedContainer s)) (getCurrent (m_adapter (m_sharedContainer s))))"
  shows "mt_Consumer_workerThreadWork k s =
      s\<lparr> m_sharedContainer := remove_current (m_sharedContainer s),
         calls := calls s @ [deref (objects (m_sharedContainer s)) (getCurrent (m_adapter (m_sharedContainer s)))],
         worker_threads := (worker_threads s)[k := Threw] \<rparr>"
  using assms
  by (simp add: mt_Consumer_workerThreadWork_def Let_def tryPop_ref_def set_pc_def)

text \<open>
  C6, as the code has it. Neither loop has a handler around the call of the callable. In a
  step in which a worker thread of a consumer pops an element on which the callable throws,
  the element is removed from the shared container and the callable is called with it;
  the exception leaves \<^verbatim>\<open>workerThreadWork\<close>, and the worker thread is gone: no later
  step of it changes anything, so it consumes no further element. The main thread is where
  it was, and nothing is dereferenced or terminated. Both variants.
\<close>

theorem callable_failure_ends_the_worker:
  assumes "can_step s k" "m_workerThreadEnabled s"
    and "\<not> std_empty (m_adapter (m_sharedContainer s))"
    and "\<not> m_callable s (deref (objects (m_sharedContainer s)) (getCurrent (m_adapter (m_sharedContainer s))))"
  shows "worker_threads (Consumer_workerThreadWork k s) = (worker_threads s)[k := Threw]
       \<and> calls (Consumer_workerThreadWork k s) =
           calls s @ [deref (objects (m_sharedContainer s)) (getCurrent (m_adapter (m_sharedContainer s)))]
       \<and> m_sharedContainer (Consumer_workerThreadWork k s) = remove_current (m_sharedContainer s)
       \<and> (Consumer_workerThreadWork k ^^ n) (Consumer_workerThreadWork k s) = Consumer_workerThreadWork k s
       \<and> fault (Consumer_workerThreadWork k s) = None
       \<and> m_mainThread (Consumer_workerThreadWork k s) = m_mainThread s
       \<and> worker_threads (mt_Consumer_workerThreadWork k s) = (worker_threads s)[k := Threw]
       \<and> calls (mt_Consumer_workerThreadWork k s) =
           calls s @ [deref (objects (m_sharedContainer s)) (getCurrent (m_adapter (m_sharedContainer s)))]
       \<and> m_sharedContainer (mt_Consumer_workerThreadWork k s) = remove_current (m_sharedContainer s)
       \<and> (mt_Consumer_workerThreadWork k ^^ n) (mt_Consumer_workerThreadWork k s) = mt_Consumer_workerThreadWork k s
       \<and> fault (mt_Consumer_workerThreadWork k s) = None
       \<and> m_mainThread (mt_Consumer_workerThreadWork k s) = m_mainThread s"
proof -
  note c = Consumer_callable_fails[OF assms] and m = mt_Consumer_callable_fails[OF assms]
  from assms(1) have k: "k < length (worker_threads s)" and f: "fault s = None"
    by (simp_all add: can_step_def)
  have "Consumer_workerThreadWork k (Consumer_workerThreadWork k s) = Consumer_workerThreadWork k s"
    using k by (intro worker_gone_no_step[THEN conjunct1]) (simp_all add: c live_def)
  then have 1: "(Consumer_workerThreadWork k ^^ n) (Consumer_workerThreadWork k s) = Consumer_workerThreadWork k s"
    by (rule funpow_fixed)
  have "mt_Consumer_workerThreadWork k (mt_Consumer_workerThreadWork k s) = mt_Consumer_workerThreadWork k s"
    using k by (intro worker_gone_no_step[THEN conjunct2]) (simp_all add: m live_def)
  then have 2: "(mt_Consumer_workerThreadWork k ^^ n) (mt_Consumer_workerThreadWork k s) = mt_Consumer_workerThreadWork k s"
    by (rule funpow_fixed)
  show ?thesis
    unfolding 1 2 using f by (simp add: c m)
qed

theorem callable_failure_ends_the_worker_witness:
  "calls (Consumer_workerThreadWork 0
     (fold Consumer_event [Call_push 1, Call_push 2, Call_enableWorkerThread, MainThread True]
        (Consumer_ctor True (0 :: int) \<lparr> m_adapter = Queue [], objects = [] \<rparr> (\<lambda>x. x \<noteq> 1)))) = [1]
 \<and> worker_threads (Consumer_workerThreadWork 0
     (fold Consumer_event [Call_push 1, Call_push 2, Call_enableWorkerThread, MainThread True]
        (Consumer_ctor True (0 :: int) \<lparr> m_adapter = Queue [], objects = [] \<rparr> (\<lambda>x. x \<noteq> 1)))) = [Threw]
 \<and> calls (mt_Consumer_workerThreadWork 0
     (fold Consumer_event [Call_push 1, Call_push 2, Call_enableWorkerThread, MainThread True]
        (Consumer_ctor True (0 :: int) \<lparr> m_adapter = Queue [], objects = [] \<rparr> (\<lambda>x. x \<noteq> 1)))) = [1]"
proof -
  let ?s = "fold Consumer_event [Call_push 1, Call_push 2, Call_enableWorkerThread, MainThread True]
        (Consumer_ctor True (0 :: int) \<lparr> m_adapter = Queue [], objects = [] \<rparr> (\<lambda>x. x \<noteq> 1))"
  have s: "?s = \<lparr> m_commandQueue = \<lparr> m_adapter = Queue [], objects = [EnableWorkerThread] \<rparr>,
      m_mainThread = Some WaitAndPop,
      m_sharedContainer = \<lparr> m_adapter = Queue [0, 1], objects = [1, 2] \<rparr>,
      m_workerThread = Some \<lparr> tid = 0, joined = False \<rparr>,
      m_workerThreadEnabled = True, m_isWorkerThreadRunning = False,
      worker_threads = [LoopTop], fault = None, m_callable = (\<lambda>x. x \<noteq> 1), calls = [],
      Elem_default = 0 \<rparr>"
    by (simp add: ctl_defs)
  have h: "can_step ?s 0" "m_workerThreadEnabled ?s" "\<not> std_empty (m_adapter (m_sharedContainer ?s))"
    "\<not> m_callable ?s (deref (objects (m_sharedContainer ?s)) (getCurrent (m_adapter (m_sharedContainer ?s))))"
    "calls ?s = []" "worker_threads ?s = [LoopTop]"
    "deref (objects (m_sharedContainer ?s)) (getCurrent (m_adapter (m_sharedContainer ?s))) = 1"
    unfolding s by (simp_all add: can_step_def live_def std_empty_def getCurrent_def deref_def)
  from callable_failure_ends_the_worker[OF h(1,2,3,4), of 0] h(5,6,7)
  show ?thesis by simp
qed

text \<open>
  C6 as it is stated fails: with 1 and 2 in the shared container and a callable that throws
  on 1, the worker thread calls it with 1 and is gone; 2 stays in the container however
  many steps the thread is given. Both variants.
\<close>

theorem callable_failure_stops_consumption:
  "calls (fold Consumer_event
      [Call_push 1, Call_push 2, Call_enableWorkerThread, MainThread True,
       WorkerThread 0, WorkerThread 0, WorkerThread 0]
      (Consumer_ctor True (0 :: int) \<lparr> m_adapter = Queue [], objects = [] \<rparr> (\<lambda>x. x \<noteq> 1))) = [1]
 \<and> held (m_sharedContainer (fold Consumer_event
      [Call_push 1, Call_push 2, Call_enableWorkerThread, MainThread True,
       WorkerThread 0, WorkerThread 0, WorkerThread 0]
      (Consumer_ctor True (0 :: int) \<lparr> m_adapter = Queue [], objects = [] \<rparr> (\<lambda>x. x \<noteq> 1)))) = [2]
 \<and> worker_threads (fold Consumer_event
      [Call_push 1, Call_push 2, Call_enableWorkerThread, MainThread True,
       WorkerThread 0, WorkerThread 0, WorkerThread 0]
      (Consumer_ctor True (0 :: int) \<lparr> m_adapter = Queue [], objects = [] \<rparr> (\<lambda>x. x \<noteq> 1))) = [Threw]
 \<and> calls (fold mt_Consumer_event
      [Call_push 1, Call_push 2, Call_enableWorkerThread, MainThread True,
       WorkerThread 0, WorkerThread 0, WorkerThread 0]
      (Consumer_ctor True (0 :: int) \<lparr> m_adapter = Queue [], objects = [] \<rparr> (\<lambda>x. x \<noteq> 1))) = [1]
 \<and> held (m_sharedContainer (fold mt_Consumer_event
      [Call_push 1, Call_push 2, Call_enableWorkerThread, MainThread True,
       WorkerThread 0, WorkerThread 0, WorkerThread 0]
      (Consumer_ctor True (0 :: int) \<lparr> m_adapter = Queue [], objects = [] \<rparr> (\<lambda>x. x \<noteq> 1)))) = [2]
 \<and> worker_threads (fold mt_Consumer_event
      [Call_push 1, Call_push 2, Call_enableWorkerThread, MainThread True,
       WorkerThread 0, WorkerThread 0, WorkerThread 0]
      (Consumer_ctor True (0 :: int) \<lparr> m_adapter = Queue [], objects = [] \<rparr> (\<lambda>x. x \<noteq> 1))) = [Threw]"
  by (simp add: ctl_defs)

subsection \<open>Enable, push, Disable, Enable\<close>

lemma waitAndPop_ref_fifo:
  assumes "is_fifo q"
  shows "held q = [] \<Longrightarrow> waitAndPop_ref q = None"
    and "held q = x # xs \<Longrightarrow>
           \<exists>q'. waitAndPop_ref q = Some (x, q') \<and> is_fifo q' \<and> held q' = xs"
proof -
  from assms obtain hs where hs: "m_adapter q = Queue hs" "handles_valid q"
    by (auto simp: is_fifo_def split: Adapt.splits)
  show "held q = [] \<Longrightarrow> waitAndPop_ref q = None"
    using hs by (simp add: held_def waitAndPop_ref_def std_empty_def)
  assume h: "held q = x # xs"
  then obtain p ps where ps: "hs = p # ps" using hs by (cases hs) (auto simp: held_def)
  with h hs have "waitAndPop_ref q = Some (x, q\<lparr> m_adapter := Queue ps \<rparr>)"
    by (simp add: held_def waitAndPop_ref_def std_empty_def getCurrent_def remove_current_def)
  moreover have "is_fifo (q\<lparr> m_adapter := Queue ps \<rparr>)"
    using hs ps by (simp add: is_fifo_def handles_valid_def)
  moreover have "held (q\<lparr> m_adapter := Queue ps \<rparr>) = xs"
    using hs ps h by (simp add: held_def)
  ultimately show "\<exists>q'. waitAndPop_ref q = Some (x, q') \<and> is_fifo q' \<and> held q' = xs"
    by blast
qed

lemma tryPop_ref_fifo:
  assumes "is_fifo q"
  shows "held q = [] \<Longrightarrow> tryPop_ref v q = (False, v, q)"
    and "held q = x # xs \<Longrightarrow>
           \<exists>q'. tryPop_ref v q = (True, x, q') \<and> is_fifo q' \<and> held q' = xs"
proof -
  from assms obtain hs where hs: "m_adapter q = Queue hs" "handles_valid q"
    by (auto simp: is_fifo_def split: Adapt.splits)
  show "held q = [] \<Longrightarrow> tryPop_ref v q = (False, v, q)"
    using hs by (simp add: held_def tryPop_ref_def std_empty_def)
  assume h: "held q = x # xs"
  then obtain p ps where ps: "hs = p # ps" using hs by (cases hs) (auto simp: held_def)
  with h hs have "tryPop_ref v q = (True, x, q\<lparr> m_adapter := Queue ps \<rparr>)"
    by (simp add: held_def tryPop_ref_def std_empty_def getCurrent_def remove_current_def)
  moreover have "is_fifo (q\<lparr> m_adapter := Queue ps \<rparr>)"
    using hs ps by (simp add: is_fifo_def handles_valid_def)
  moreover have "held (q\<lparr> m_adapter := Queue ps \<rparr>) = xs"
    using hs ps h by (simp add: held_def)
  ultimately show "\<exists>q'. tryPop_ref v q = (True, x, q') \<and> is_fifo q' \<and> held q' = xs"
    by blast
qed

lemma push_fifo:
  assumes "is_fifo q"
  shows "is_fifo (push v q)" and "held (push v q) = held q @ [v]"
proof -
  from assms obtain hs where hs: "m_adapter q = Queue hs" "handles_valid q"
    by (auto simp: is_fifo_def split: Adapt.splits)
  from push_Queue[OF hs, of v] show "is_fifo (push v q)" "held (push v q) = held q @ [v]"
    by (simp_all add: is_fifo_def)
qed

lemma fold_push_fifo:
  "is_fifo q \<Longrightarrow> is_fifo (fold push vs q) \<and> held (fold push vs q) = held q @ vs"
  by (induction vs arbitrary: q) (simp_all add: push_fifo)

lemma upto3: "c \<le> 3 \<Longrightarrow> c = 0 \<or> c = 1 \<or> c = 2 \<or> c = (3::nat)"
  by arith

lemma lifecycle_drop:
  "1 \<le> c \<Longrightarrow> c \<le> 3 \<Longrightarrow> take c lifecycle = EnableWorkerThread # drop 1 (take c lifecycle)"
  "2 \<le> c \<Longrightarrow> c \<le> 3 \<Longrightarrow> drop 1 (take c lifecycle) = DisableWorkerThread # drop 2 (take c lifecycle)"
  "c = 3 \<Longrightarrow> drop 2 (take c lifecycle) = EnableWorkerThread # drop 3 (take c lifecycle)"
  "drop c (take c lifecycle) = []"
  using upto3[of c] by (auto simp: lifecycle_def)

lemma lifecycle_snoc:
  "c < 3 \<Longrightarrow> p \<le> c \<Longrightarrow>
     drop p (take (Suc c) lifecycle) = drop p (take c lifecycle) @ [lifecycle ! c]"
proof -
  assume "c < 3" "p \<le> c"
  moreover have "length lifecycle = 3" by (simp add: lifecycle_def)
  ultimately show ?thesis
    using take_Suc_conv_app_nth[of c lifecycle] by simp
qed

lemma pushAndNotify_fifo:
  assumes "is_fifo q"
  shows "is_fifo (pushAndNotify v q)" and "held (pushAndNotify v q) = held q @ [v]"
  using push_fifo[OF assms, of v] by (simp_all add: pushAndNotify_def)

lemma ctl_inv_enable:
  assumes "ctl_inv c st e s" "c = 0 \<or> c = 2"
  shows "ctl_inv (Suc c) st e (enableWorkerThread s)"
proof -
  from assms have c: "c < 3" "lifecycle ! c = EnableWorkerThread" by (auto simp: lifecycle_def)
  from assms(1) have f: "is_fifo (m_commandQueue s)" and p: "popped_commands st \<le> c"
    and pe: "pending s = drop (popped_commands st) (take c lifecycle)"
    and st: "in_stage st e s" and fl: "fault s = None"
    by (simp_all add: ctl_inv_def)
  have "pending (enableWorkerThread s) = drop (popped_commands st) (take (Suc c) lifecycle)"
    using pushAndNotify_fifo(2)[OF f] pe c lifecycle_snoc[OF c(1) p]
    by (simp add: pending_def enableWorkerThread_def)
  moreover have "in_stage st e (enableWorkerThread s)"
    using st by (cases st) (simp_all add: enableWorkerThread_def)
  ultimately show ?thesis
    using pushAndNotify_fifo(1)[OF f] p c fl
    by (simp add: ctl_inv_def enableWorkerThread_def)
qed

lemma ctl_inv_disable:
  assumes "ctl_inv 1 st e s"
  shows "ctl_inv 2 st e (disableWorkerThread s)"
proof -
  have c: "(1::nat) < 3" "lifecycle ! 1 = DisableWorkerThread" by (auto simp: lifecycle_def)
  from assms(1) have f: "is_fifo (m_commandQueue s)" and p: "popped_commands st \<le> 1"
    and pe: "pending s = drop (popped_commands st) (take 1 lifecycle)"
    and st: "in_stage st e s" and fl: "fault s = None"
    by (simp_all add: ctl_inv_def)
  have "pending (disableWorkerThread s) = drop (popped_commands st) (take (Suc 1) lifecycle)"
    using pushAndNotify_fifo(2)[OF f] pe c lifecycle_snoc[OF c(1) p]
    by (simp add: pending_def disableWorkerThread_def)
  moreover have "in_stage st e (disableWorkerThread s)"
    using st by (cases st) (simp_all add: disableWorkerThread_def)
  ultimately show ?thesis
    using pushAndNotify_fifo(1)[OF f] p c fl
    by (simp add: ctl_inv_def disableWorkerThread_def numeral_2_eq_2)
qed

lemma ctl_inv_src:
  assumes "ctl_inv c st e s" "c < 3"
  shows "ctl_inv c st e' s"
  using assms by (cases st) (simp_all add: ctl_inv_def)

lemma main_Fresh:
  assumes "ctl_inv c Fresh e s" "1 \<le> c"
  shows "ctl_inv c Enabled1 e' (mainThreadWork True s)"
    and "m_sharedContainer (mainThreadWork True s) = m_sharedContainer s"
    and "ProducerConsumerBase.more (mainThreadWork True s) = ProducerConsumerBase.more s"
proof -
  from assms have c: "c \<le> 3" and f: "is_fifo (m_commandQueue s)" and fl: "fault s = None"
    and pe: "held (m_commandQueue s) = EnableWorkerThread # drop 1 (take c lifecycle)"
    and st: "m_mainThread s = Some WaitAndPop" "\<not> m_workerThreadEnabled s"
            "\<not> m_isWorkerThreadRunning s" "worker_threads s = []" "m_workerThread s = None"
    using lifecycle_drop(1)[of c] by (simp_all add: ctl_inv_def pending_def)
  from waitAndPop_ref_fifo(2)[OF f pe] obtain q where
    q: "waitAndPop_ref (m_commandQueue s) = Some (EnableWorkerThread, q)" "is_fifo q"
       "held q = drop 1 (take c lifecycle)" by blast
  have eq: "mainThreadWork True s =
      s\<lparr> m_commandQueue := q, m_workerThreadEnabled := True, worker_threads := [LoopTop],
         m_workerThread := Some \<lparr> tid = 0, joined = False \<rparr> \<rparr>"
    using fl st q(1) by (simp add: mainThreadWork_def start_worker_thread_def)
  show "ctl_inv c Enabled1 e' (mainThreadWork True s)"
    unfolding eq using c q fl st assms(2) by (simp add: ctl_inv_def pending_def live_def)
  show "m_sharedContainer (mainThreadWork True s) = m_sharedContainer s"
    unfolding eq by simp
  show "ProducerConsumerBase.more (mainThreadWork True s) = ProducerConsumerBase.more s"
    unfolding eq by simp
qed

lemma main_Enabled1:
  assumes "ctl_inv c Enabled1 e s" "2 \<le> c"
  shows "ctl_inv c Disabling e' (mainThreadWork True s)"
    and "m_sharedContainer (mainThreadWork True s) = m_sharedContainer s"
    and "ProducerConsumerBase.more (mainThreadWork True s) = ProducerConsumerBase.more s"
proof -
  from assms have c: "c \<le> 3" and f: "is_fifo (m_commandQueue s)" and fl: "fault s = None"
    and pe: "held (m_commandQueue s) = DisableWorkerThread # drop 2 (take c lifecycle)"
    and st: "m_mainThread s = Some WaitAndPop" "m_workerThreadEnabled s"
            "m_workerThread s = Some \<lparr> tid = 0, joined = False \<rparr>"
    and w: "\<exists>w. worker_threads s = [w] \<and> live w"
    using lifecycle_drop(2)[of c] by (simp_all add: ctl_inv_def pending_def)
  from waitAndPop_ref_fifo(2)[OF f pe] obtain q where
    q: "waitAndPop_ref (m_commandQueue s) = Some (DisableWorkerThread, q)" "is_fifo q"
       "held q = drop 2 (take c lifecycle)" by blast
  have eq: "mainThreadWork True s =
      s\<lparr> m_commandQueue := q, m_workerThreadEnabled := False,
         m_mainThread := Some (Join DisableWorkerThread) \<rparr>"
    using fl st q(1) by (simp add: mainThreadWork_def disableWorkerThreadIfEnabled_def)
  show "ctl_inv c Disabling e' (mainThreadWork True s)"
    unfolding eq using c q fl st w assms(2) by (auto simp: ctl_inv_def pending_def live_def)
  show "m_sharedContainer (mainThreadWork True s) = m_sharedContainer s"
    unfolding eq by simp
  show "ProducerConsumerBase.more (mainThreadWork True s) = ProducerConsumerBase.more s"
    unfolding eq by simp
qed

lemma main_Disabling:
  assumes "ctl_inv c Disabling e s"
  shows "worker_threads s = [Returned] \<Longrightarrow> ctl_inv c Disabled e' (mainThreadWork True s)"
    and "worker_threads s \<noteq> [Returned] \<Longrightarrow> mainThreadWork True s = s"
    and "m_sharedContainer (mainThreadWork True s) = m_sharedContainer s"
    and "ProducerConsumerBase.more (mainThreadWork True s) = ProducerConsumerBase.more s"
proof -
  from assms have c: "c \<le> 3" "2 \<le> c" and f: "is_fifo (m_commandQueue s)" and fl: "fault s = None"
    and pe: "pending s = drop 2 (take c lifecycle)"
    and st: "m_mainThread s = Some (Join DisableWorkerThread)" "\<not> m_workerThreadEnabled s"
            "m_workerThread s = Some \<lparr> tid = 0, joined = False \<rparr>"
    and w: "\<exists>w. worker_threads s = [w] \<and> w \<noteq> Threw \<and> (w = Returned \<longrightarrow> \<not> m_isWorkerThreadRunning s)"
    by (simp_all add: ctl_inv_def)
  from w obtain w where w: "worker_threads s = [w]" "w \<noteq> Threw"
    "w = Returned \<longrightarrow> \<not> m_isWorkerThreadRunning s" by blast
  have gone: "thread_gone s 0 = (w = Returned)"
    using w by (cases w) (simp_all add: thread_gone_def live_def)
  have eq: "mainThreadWork True s =
      (if w = Returned
       then s\<lparr> m_workerThread := Some \<lparr> tid = 0, joined = True \<rparr>, m_mainThread := Some WaitAndPop \<rparr>
       else s)"
    using fl st gone by (simp add: mainThreadWork_def command_done_def)
  show "worker_threads s = [Returned] \<Longrightarrow> ctl_inv c Disabled e' (mainThreadWork True s)"
    unfolding eq using c f fl pe st w by (simp add: ctl_inv_def pending_def)
  show "worker_threads s \<noteq> [Returned] \<Longrightarrow> mainThreadWork True s = s"
    unfolding eq using w by simp
  show "m_sharedContainer (mainThreadWork True s) = m_sharedContainer s"
    unfolding eq by simp
  show "ProducerConsumerBase.more (mainThreadWork True s) = ProducerConsumerBase.more s"
    unfolding eq by simp
qed

lemma main_Disabled:
  assumes "ctl_inv c Disabled e s" "c = 3"
  shows "ctl_inv c Enabled2 e' (mainThreadWork True s)"
    and "m_sharedContainer (mainThreadWork True s) = m_sharedContainer s"
    and "ProducerConsumerBase.more (mainThreadWork True s) = ProducerConsumerBase.more s"
proof -
  from assms have c: "c \<le> 3" and f: "is_fifo (m_commandQueue s)" and fl: "fault s = None"
    and pe: "held (m_commandQueue s) = EnableWorkerThread # drop 3 (take c lifecycle)"
    and st: "m_mainThread s = Some WaitAndPop" "\<not> m_workerThreadEnabled s"
            "\<not> m_isWorkerThreadRunning s" "worker_threads s = [Returned]"
            "m_workerThread s = Some \<lparr> tid = 0, joined = True \<rparr>"
    using lifecycle_drop(3)[of c] by (simp_all add: ctl_inv_def pending_def)
  from waitAndPop_ref_fifo(2)[OF f pe] obtain q where
    q: "waitAndPop_ref (m_commandQueue s) = Some (EnableWorkerThread, q)" "is_fifo q"
       "held q = drop 3 (take c lifecycle)" by blast
  have eq: "mainThreadWork True s =
      s\<lparr> m_commandQueue := q, m_workerThreadEnabled := True, worker_threads := [Returned, LoopTop],
         m_workerThread := Some \<lparr> tid = 1, joined = False \<rparr> \<rparr>"
    using fl st q(1) by (simp add: mainThreadWork_def start_worker_thread_def)
  show "ctl_inv c Enabled2 e' (mainThreadWork True s)"
    unfolding eq using c q fl st assms(2) by (simp add: ctl_inv_def pending_def live_def)
  show "m_sharedContainer (mainThreadWork True s) = m_sharedContainer s"
    unfolding eq by simp
  show "ProducerConsumerBase.more (mainThreadWork True s) = ProducerConsumerBase.more s"
    unfolding eq by simp
qed

lemma main_blocked:
  assumes "ctl_inv c st e s" "popped_commands st = c" "st \<noteq> Disabling"
  shows "mainThreadWork True s = s"
proof -
  from assms have f: "is_fifo (m_commandQueue s)" and fl: "fault s = None"
    and pe: "held (m_commandQueue s) = []"
    using lifecycle_drop(4)[of c] by (simp_all add: ctl_inv_def pending_def)
  from assms have "in_stage st e s" by (simp add: ctl_inv_def)
  with assms(3) have st: "m_mainThread s = Some WaitAndPop" by (cases st) simp_all
  from waitAndPop_ref_fifo(1)[OF f pe] fl st show ?thesis
    by (simp add: mainThreadWork_def)
qed

lemma main_step:
  assumes "ctl_inv c st e s"
  shows "\<exists>st'. ctl_inv c st' e (mainThreadWork True s)"
    and "m_sharedContainer (mainThreadWork True s) = m_sharedContainer s"
    and "ProducerConsumerBase.more (mainThreadWork True s) = ProducerConsumerBase.more s"
proof -
  have "(\<exists>st'. ctl_inv c st' e (mainThreadWork True s))
      \<and> m_sharedContainer (mainThreadWork True s) = m_sharedContainer s
      \<and> ProducerConsumerBase.more (mainThreadWork True s) = ProducerConsumerBase.more s"
  proof (cases "popped_commands st = c \<and> st \<noteq> Disabling")
    case True
    with main_blocked[OF assms] assms show ?thesis by auto
  next
    case False
    from assms have le: "popped_commands st \<le> c" "c \<le> 3" by (simp_all add: ctl_inv_def)
    show ?thesis
    proof (cases st)
      case Fresh
      with False le have "1 \<le> c" by simp
      with main_Fresh(1)[where c=c and e=e and s=s and e'=e] main_Fresh(2-)[where c=c and e=e and s=s] assms Fresh show ?thesis by blast
    next
      case Enabled1
      with False le have "2 \<le> c" by simp
      with main_Enabled1(1)[where c=c and e=e and s=s and e'=e] main_Enabled1(2-)[where c=c and e=e and s=s] assms Enabled1 show ?thesis by blast
    next
      case Disabling
      with main_Disabling(1)[where c=c and e=e and s=s and e'=e] main_Disabling(2-)[where c=c and e=e and s=s] assms show ?thesis
        by (cases "worker_threads s = [Returned]") auto
    next
      case Disabled
      with False le have "c = 3" by simp
      with main_Disabled(1)[where c=c and e=e and s=s and e'=e] main_Disabled(2-)[where c=c and e=e and s=s] assms Disabled show ?thesis by blast
    next
      case Enabled2
      with False le show ?thesis by simp
    qed
  qed
  then show "\<exists>st'. ctl_inv c st' e (mainThreadWork True s)"
    and "m_sharedContainer (mainThreadWork True s) = m_sharedContainer s"
    and "ProducerConsumerBase.more (mainThreadWork True s) = ProducerConsumerBase.more s"
    by blast+
qed

lemma push_any:
  assumes "handles_valid t"
  shows "handles_valid (push v t)"
    and "mset (held (push v t)) = add_mset v (mset (held t))"
proof -
  let ?n = "length (objects t)"
  let ?mem = "objects t @ [v]"
  let ?hs = "getProtectedContainer (m_adapter t)"
  let ?hs' = "getProtectedContainer (m_adapter (push v t))"
  have o: "objects (push v t) = ?mem" by (simp add: push_def make_shared_def)
  have ms: "mset ?hs' = add_mset ?n (mset ?hs)"
    by (cases "m_adapter t") (simp_all add: push_def make_shared_def push_heap_mset)
  have v: "list_all (\<lambda>p. p < ?n) ?hs" using assms by (simp add: handles_valid_def)
  from ms have "set ?hs' = insert ?n (set ?hs)" by (metis set_mset_add_mset_insert set_mset_mset)
  with v show "handles_valid (push v t)"
    by (auto simp: handles_valid_def o list_all_iff)
  have "mset (held (push v t)) = image_mset (deref ?mem) (mset ?hs')"
    by (simp add: held_def o)
  also have "\<dots> = add_mset (deref ?mem ?n) (image_mset (deref ?mem) (mset ?hs))"
    by (simp add: ms)
  also have "image_mset (deref ?mem) (mset ?hs) = mset (map (deref (objects t)) ?hs)"
    using map_deref_append[OF v, of v] by (metis mset_map)
  finally show "mset (held (push v t)) = add_mset v (mset (held t))"
    by (simp add: held_def deref_new)
qed

lemma tryPop_ref_any:
  assumes "handles_valid t"
  shows "held t = [] \<Longrightarrow> tryPop_ref v t = (False, v, t)"
    and "held t \<noteq> [] \<Longrightarrow>
           \<exists>x q. tryPop_ref v t = (True, x, q) \<and> handles_valid q
                \<and> add_mset x (mset (held q)) = mset (held t)"
proof -
  let ?hs = "getProtectedContainer (m_adapter t)"
  let ?f = "deref (objects t)"
  let ?x = "getCurrent (m_adapter t)"
  let ?q = "remove_current t"
  let ?hs' = "getProtectedContainer (m_adapter ?q)"
  show "held t = [] \<Longrightarrow> tryPop_ref v t = (False, v, t)"
    by (simp add: held_def tryPop_ref_def std_empty_def)
  assume "held t \<noteq> []"
  then have ne: "?hs \<noteq> []" by (simp add: held_def)
  then have tp: "tryPop_ref v t = (True, ?f ?x, ?q)"
    by (simp add: tryPop_ref_def std_empty_def)
  have ms: "add_mset ?x (mset ?hs') = mset ?hs"
  proof (cases "m_adapter t")
    case (Queue hs)
    with ne show ?thesis
      by (cases hs) (simp_all add: remove_current_def getCurrent_def)
  next
    case (Stack hs)
    with ne have "hs \<noteq> []" by simp
    then have "mset (butlast hs @ [last hs]) = mset hs" by simp
    then show ?thesis using Stack
      by (simp add: remove_current_def getCurrent_def)
  next
    case (PriorityQueue cc hs)
    with ne have "hs \<noteq> []" by simp
    then have "mset (butlast (pop_heap (call_operator (objects t) cc) hs)) = mset hs - {# hd hs #}"
      by (rule butlast_pop_heap_mset)
    moreover have "hd hs \<in># mset hs" using \<open>hs \<noteq> []\<close> by simp
    ultimately show ?thesis using PriorityQueue
      by (simp add: remove_current_def getCurrent_def)
  qed
  then have "set ?hs' \<subseteq> set ?hs" by (metis set_mset_mset set_mset_add_mset_insert subset_insertI)
  then have hv: "handles_valid ?q"
    using assms by (auto simp: handles_valid_def list_all_iff remove_current_def)
  have "add_mset (?f ?x) (mset (held ?q)) = image_mset ?f (add_mset ?x (mset ?hs'))"
    by (simp add: held_def remove_current_def)
  also have "\<dots> = mset (held t)" unfolding ms by (simp add: held_def)
  finally show "\<exists>x q. tryPop_ref v t = (True, x, q) \<and> handles_valid q
                \<and> add_mset x (mset (held q)) = mset (held t)"
    using tp hv by blast
qed

lemma is_fifo_valid: "is_fifo t \<Longrightarrow> handles_valid t"
  by (auto simp: is_fifo_def split: Adapt.splits)

lemma Consumer_worker_Returned:
  assumes "can_step s k" "\<not> m_workerThreadEnabled s"
  shows "Consumer_workerThreadWork k s =
             s\<lparr> m_isWorkerThreadRunning := False, worker_threads := (worker_threads s)[k := Returned] \<rparr>"
  using assms by (simp add: Consumer_workerThreadWork_def set_pc_def)

lemma Consumer_worker_InWait:
  assumes "can_step s k" "m_workerThreadEnabled s" "handles_valid (m_sharedContainer s)"
    "held (m_sharedContainer s) = []"
  shows "Consumer_workerThreadWork k s =
             s\<lparr> m_isWorkerThreadRunning := (worker_threads s ! k = LoopTop \<or> m_isWorkerThreadRunning s),
                worker_threads := (worker_threads s)[k := InWait] \<rparr>"
  using assms(1,2) tryPop_ref_any(1)[OF assms(3,4)]
  by (simp add: Consumer_workerThreadWork_def set_pc_def)

lemma Consumer_worker_LoopTop:
  assumes "can_step s k" "m_workerThreadEnabled s"
    "tryPop_ref (Elem_default s) (m_sharedContainer s) = (True, x, q)" "m_callable s x"
  shows "Consumer_workerThreadWork k s =
             s\<lparr> m_isWorkerThreadRunning := (worker_threads s ! k = LoopTop \<or> m_isWorkerThreadRunning s),
                m_sharedContainer := q, calls := calls s @ [x],
                worker_threads := (worker_threads s)[k := LoopTop] \<rparr>"
  using assms by (simp add: Consumer_workerThreadWork_def set_pc_def)

lemma Consumer_data_pop:
  assumes "Consumer_data ordered xs s" "held (m_sharedContainer s) \<noteq> []"
  shows "\<exists>x q. tryPop_ref (Elem_default s) (m_sharedContainer s) = (True, x, q)
            \<and> Consumer_data ordered xs (s\<lparr> m_sharedContainer := q, calls := calls s @ [x] \<rparr>)
            \<and> length (held q) < length (held (m_sharedContainer s))"
proof -
  let ?sh = "m_sharedContainer s"
  from assms(1) have hv: "handles_valid ?sh" and ok: "\<forall>x. m_callable s x"
    and m: "mset (calls s) + mset (held ?sh) = mset xs"
    and o: "ordered \<longrightarrow> is_fifo ?sh \<and> calls s @ held ?sh = xs"
    by (simp_all add: Consumer_data_def)
  from tryPop_ref_any(2)[OF hv assms(2), of "Elem_default s"] obtain x q where
    q: "tryPop_ref (Elem_default s) ?sh = (True, x, q)" "handles_valid q"
       "add_mset x (mset (held q)) = mset (held ?sh)" by blast
  have ms: "mset (calls s @ [x]) + mset (held q) = mset xs"
    unfolding m[symmetric] q(3)[symmetric] by simp
  have ord: "is_fifo q \<and> (calls s @ [x]) @ held q = xs" if "ordered"
  proof -
    from that o have f: "is_fifo ?sh" and c: "calls s @ held ?sh = xs" by simp_all
    from assms(2) obtain y ys where y: "held ?sh = y # ys"
      by (cases "held ?sh") simp_all
    from tryPop_ref_fifo(2)[OF f y, of "Elem_default s"] obtain q' where
      "tryPop_ref (Elem_default s) ?sh = (True, y, q')" "is_fifo q'" "held q' = ys" by blast
    with q(1) have "x = y" "q = q'" by simp_all
    with \<open>is_fifo q'\<close> \<open>held q' = ys\<close> c y show ?thesis by simp
  qed
  have "size (mset (held ?sh)) = Suc (size (mset (held q)))"
    unfolding q(3)[symmetric] by simp
  then have len: "length (held q) < length (held ?sh)" by simp
  have "Consumer_data ordered xs (s\<lparr> m_sharedContainer := q, calls := calls s @ [x] \<rparr>)"
    unfolding Consumer_data_def using q(2) ok ms ord by simp
  with q(1) len show ?thesis by blast
qed

lemma ctl_inv_frame [simp]:
  "ctl_inv c st e (s\<lparr> m_sharedContainer := q \<rparr>) = ctl_inv c st e s"
  by (cases st) (simp_all add: ctl_inv_def pending_def)

lemma ctl_inv_more [simp]:
  "ctl_inv c st e (ProducerConsumerBase.more_update f s) = ctl_inv c st e s"
  by (cases st) (simp_all add: ctl_inv_def pending_def)

lemma Consumer_ctl_calls [simp]:
  "ctl_inv c st e (s\<lparr> calls := cs \<rparr>) = ctl_inv c st e s"
  by (cases st) (simp_all add: ctl_inv_def pending_def)

lemma Consumer_data_frame [simp]:
  "Consumer_data ordered xs (s\<lparr> m_isWorkerThreadRunning := r \<rparr>) = Consumer_data ordered xs s"
  "Consumer_data ordered xs (s\<lparr> worker_threads := W \<rparr>) = Consumer_data ordered xs s"
  "Consumer_data ordered xs (s\<lparr> m_commandQueue := cq \<rparr>) = Consumer_data ordered xs s"
  by (simp_all add: Consumer_data_def)

lemma live_only:
  "k < length [w] \<Longrightarrow> k = 0"
  "k < length [Returned, w] \<Longrightarrow> live ([Returned, w] ! k) \<Longrightarrow> k = 1"
  by (cases k; simp add: live_def)+

lemma ctl_inv_stuck:
  assumes "ctl_inv c st e s" "\<not> can_step s k"
  shows "st = Disabling \<Longrightarrow> k = 0 \<Longrightarrow> worker_threads s = [Returned]"
    and "st = Enabled2 \<Longrightarrow> k \<noteq> 1"
proof -
  from assms(1) have fl: "fault s = None" and st: "in_stage st e s" by (simp_all add: ctl_inv_def)
  show "st = Disabling \<Longrightarrow> k = 0 \<Longrightarrow> worker_threads s = [Returned]"
  proof -
    assume a: "st = Disabling" "k = 0"
    with st obtain w where w: "worker_threads s = [w]" "w \<noteq> Threw" by auto
    with assms(2) fl a have "\<not> live w" by (simp add: can_step_def)
    with w show ?thesis by (cases w) (simp_all add: live_def)
  qed
  show "st = Enabled2 \<Longrightarrow> k \<noteq> 1"
  proof
    assume a: "st = Enabled2" "k = 1"
    with st obtain w where w: "worker_threads s = [Returned, w]" "live w" by auto
    with assms(2) fl a show False by (simp add: can_step_def)
  qed
qed

lemma Consumer_worker_inv:
  fixes s :: "'a Consumer" and k :: nat
  assumes c: "ctl_inv c st (held (m_sharedContainer s) = []) s" and d: "Consumer_data ordered xs s"
  defines "s' \<equiv> Consumer_workerThreadWork k s"
  shows "ctl_inv c st (held (m_sharedContainer s') = []) s'"
    and "Consumer_data ordered xs s'"
    and "st = Disabling \<Longrightarrow> k = 0 \<Longrightarrow> worker_threads s' = [Returned]"
    and "st = Enabled2 \<Longrightarrow> k = 1 \<Longrightarrow>
           (if held (m_sharedContainer s) = []
            then worker_threads s' = [Returned, InWait] \<and> held (m_sharedContainer s') = []
            else length (held (m_sharedContainer s')) < length (held (m_sharedContainer s)))"
    and "length (held (m_sharedContainer s')) \<le> length (held (m_sharedContainer s))"
proof -
  let ?sh = "m_sharedContainer s"
  from c have fl: "fault s = None" and f: "is_fifo (m_commandQueue s)" and c3: "c \<le> 3"
    and pc: "popped_commands st \<le> c"
    and pe: "pending s = drop (popped_commands st) (take c lifecycle)"
    and st: "in_stage st (held ?sh = []) s"
    by (simp_all add: ctl_inv_def)
  from d have hv: "handles_valid ?sh" and ok: "\<And>x. m_callable s x"
    by (simp_all add: Consumer_data_def)
  have "ctl_inv c st (held (m_sharedContainer s') = []) s' \<and> Consumer_data ordered xs s'
      \<and> (st = Disabling \<longrightarrow> k = 0 \<longrightarrow> worker_threads s' = [Returned])
      \<and> (st = Enabled2 \<longrightarrow> k = 1 \<longrightarrow>
           (if held ?sh = []
            then worker_threads s' = [Returned, InWait] \<and> held (m_sharedContainer s') = []
            else length (held (m_sharedContainer s')) < length (held ?sh)))
      \<and> length (held (m_sharedContainer s')) \<le> length (held ?sh)"
  proof (cases "can_step s k")
    case False
    then have "s' = s" by (simp add: s'_def Consumer_workerThreadWork_def)
    with c d ctl_inv_stuck[OF c False] show ?thesis by auto
  next
    case True
    then have k: "k < length (worker_threads s)" "live (worker_threads s ! k)"
      by (simp_all add: can_step_def)
    show ?thesis
    proof (cases "m_workerThreadEnabled s")
      case False
      with st k obtain w where w: "st = Disabling" "worker_threads s = [w]" "k = 0"
          "m_mainThread s = Some (Join DisableWorkerThread)"
          "m_workerThread s = Some \<lparr> tid = 0, joined = False \<rparr>"
        by (cases st) (auto simp: live_def)
      have eq: "s' = s\<lparr> m_isWorkerThreadRunning := False, worker_threads := [Returned] \<rparr>"
        unfolding s'_def Consumer_worker_Returned[OF True False] using w by simp
      have "ctl_inv c st (held (m_sharedContainer s') = []) s'"
        unfolding eq using fl f c3 pc pe w False by (simp add: ctl_inv_def pending_def)
      moreover have "Consumer_data ordered xs s'" unfolding eq using d by simp
      moreover have "worker_threads s' = [Returned]" unfolding eq by simp
      moreover have "m_sharedContainer s' = ?sh" unfolding eq by simp
      ultimately show ?thesis using w by simp
    next
      case en: True
      with st have "st = Enabled1 \<or> st = Enabled2" by (cases st) simp_all
      then have kw: "(st = Enabled1 \<and> k = 0 \<and> (\<exists>w. worker_threads s = [w]))
          \<or> (st = Enabled2 \<and> k = 1 \<and> (\<exists>w. worker_threads s = [Returned, w]))"
        using st k live_only[of k] by auto
      have mt: "m_mainThread s = Some WaitAndPop" using st \<open>st = Enabled1 \<or> st = Enabled2\<close> by auto
      show ?thesis
      proof (cases "held ?sh = []")
        case True
        have eq: "s' = s\<lparr> m_isWorkerThreadRunning := (worker_threads s ! k = LoopTop \<or> m_isWorkerThreadRunning s),
                worker_threads := (worker_threads s)[k := InWait] \<rparr>"
          unfolding s'_def by (rule Consumer_worker_InWait[OF \<open>can_step s k\<close> en hv True])
        have "ctl_inv c st (held (m_sharedContainer s') = []) s'"
          unfolding eq using fl f c3 pc pe kw st en True
          by (auto simp: ctl_inv_def pending_def live_def)
        moreover have "Consumer_data ordered xs s'" unfolding eq using d by simp
        moreover have "st = Enabled2 \<longrightarrow> worker_threads s' = [Returned, InWait] \<and> held (m_sharedContainer s') = []"
          unfolding eq using kw True by auto
        moreover have "m_sharedContainer s' = ?sh" unfolding eq by simp
        ultimately show ?thesis using True kw by auto
      next
        case False
        from Consumer_data_pop[OF d False] obtain x q where
          q: "tryPop_ref (Elem_default s) ?sh = (True, x, q)"
             "Consumer_data ordered xs (s\<lparr> m_sharedContainer := q, calls := calls s @ [x] \<rparr>)"
             "length (held q) < length (held ?sh)" by blast
        have eq: "s' = s\<lparr> m_isWorkerThreadRunning := (worker_threads s ! k = LoopTop \<or> m_isWorkerThreadRunning s),
                m_sharedContainer := q, calls := calls s @ [x],
                worker_threads := (worker_threads s)[k := LoopTop] \<rparr>"
          unfolding s'_def by (rule Consumer_worker_LoopTop[OF \<open>can_step s k\<close> en q(1) ok])
        have "ctl_inv c st (held (m_sharedContainer s') = []) s'"
          unfolding eq using fl f c3 pc pe kw st en
          by (auto simp: ctl_inv_def pending_def live_def)
        moreover have "Consumer_data ordered xs s'"
          unfolding eq using q(2) by (simp add: Consumer_data_def)
        moreover have "length (held (m_sharedContainer s')) < length (held ?sh)"
          unfolding eq using q(3) by simp
        ultimately show ?thesis using False kw by auto
      qed
    qed
  qed
  then show "ctl_inv c st (held (m_sharedContainer s') = []) s'"
    and "Consumer_data ordered xs s'"
    and "st = Disabling \<Longrightarrow> k = 0 \<Longrightarrow> worker_threads s' = [Returned]"
    and "st = Enabled2 \<Longrightarrow> k = 1 \<Longrightarrow>
           (if held (m_sharedContainer s) = []
            then worker_threads s' = [Returned, InWait] \<and> held (m_sharedContainer s') = []
            else length (held (m_sharedContainer s')) < length (held (m_sharedContainer s)))"
    and "length (held (m_sharedContainer s')) \<le> length (held (m_sharedContainer s))"
    by blast+
qed

lemma Consumer_more:
  fixes s s' :: "'a Consumer"
  assumes "ProducerConsumerBase.more s' = ProducerConsumerBase.more s"
  shows "calls s' = calls s" "m_callable s' = m_callable s" "Elem_default s' = Elem_default s"
  using assms by (cases s; cases s'; simp)+

lemma Producer_more:
  fixes s s' :: "'a Producer"
  assumes "ProducerConsumerBase.more s' = ProducerConsumerBase.more s"
  shows "m_vectorItemsQueue s' = m_vectorItemsQueue s"
  using assms by (cases s; cases s'; simp)

lemma empty_command_queue:
  "is_fifo (the (createThreadsafeSTLAdapterFrom (Queue []) []))"
  "held (the (createThreadsafeSTLAdapterFrom (Queue []) [])) = []"
  by (simp_all add: factory_Queue is_fifo_def handles_valid_def held_def)

lemma main_advance:
  assumes "ctl_inv 3 st e s"
  shows "\<exists>st'. ctl_inv 3 st' e (mainThreadWork True s) \<and> rank st \<le> rank st'
           \<and> (st = Fresh \<or> st = Enabled1 \<or> st = Disabled
                \<or> (st = Disabling \<and> worker_threads s = [Returned]) \<longrightarrow> rank st < rank st')"
proof (cases st)
  case Fresh
  with main_Fresh(1)[of 3 e s e] assms show ?thesis by auto
next
  case Enabled1
  with main_Enabled1(1)[of 3 e s e] assms show ?thesis by auto
next
  case Disabling
  show ?thesis
  proof (cases "worker_threads s = [Returned]")
    case True
    with main_Disabling(1)[of 3 e s e] assms Disabling show ?thesis by auto
  next
    case False
    with main_Disabling(2)[of 3 e s] assms Disabling show ?thesis by auto
  qed
next
  case Disabled
  with main_Disabled(1)[of 3 e s e] assms show ?thesis by auto
next
  case Enabled2
  with main_blocked[of 3 st e s] assms show ?thesis by auto
qed

lemma Consumer_ctor_inv:
  assumes "handles_valid sc" "\<forall>x. f x"
  shows "Consumer_inv 0 (is_fifo sc) (held sc) (Consumer_ctor True d sc f)"
proof -
  have "ctl_inv 0 Fresh (held sc = []) (Consumer_ctor True d sc f)"
    by (simp add: ctl_inv_def Consumer_ctor_def runMainThread_def pending_def
          is_fifo_def handles_valid_def held_def)
  moreover have "Consumer_data (is_fifo sc) (held sc) (Consumer_ctor True d sc f)"
    using assms by (simp add: Consumer_data_def Consumer_ctor_def runMainThread_def)
  moreover have "m_sharedContainer (Consumer_ctor True d sc f) = sc"
    by (simp add: Consumer_ctor_def runMainThread_def)
  ultimately show ?thesis unfolding Consumer_inv_def by auto
qed

lemma Consumer_data_main:
  fixes s :: "'a Consumer"
  assumes "ctl_inv c st e s" "Consumer_data ordered xs s"
  shows "Consumer_data ordered xs (mainThreadWork True s)"
  using assms(2) main_step(2)[OF assms(1)] Consumer_more[OF main_step(3)[OF assms(1)]]
  by (simp add: Consumer_data_def)

lemma Consumer_data_push:
  assumes "Consumer_data ordered (xs0 @ ps) s"
  shows "Consumer_data ordered (xs0 @ ps @ [x]) (s\<lparr> m_sharedContainer := push x (m_sharedContainer s) \<rparr>)"
proof -
  let ?sh = "m_sharedContainer s"
  from assms have hv: "handles_valid ?sh" by (simp add: Consumer_data_def)
  have "is_fifo (push x ?sh) \<and> calls s @ held (push x ?sh) = xs0 @ ps @ [x]" if "ordered"
    using that assms push_fifo[of ?sh x] by (simp add: Consumer_data_def)
  moreover have "mset (calls s) + mset (held (push x ?sh)) = mset (xs0 @ ps @ [x])"
    using assms push_any(2)[OF hv, of x] by (simp add: Consumer_data_def)
  ultimately show ?thesis using assms push_any(1)[OF hv, of x]
    by (simp add: Consumer_data_def)
qed

lemma Consumer_track:
  assumes "track e (c, ps) = Some (c', ps')" "Consumer_inv c ordered (xs0 @ ps) s"
  shows "Consumer_inv c' ordered (xs0 @ ps') (Consumer_event e s)"
proof -
  from assms(2) obtain st where st: "ctl_inv c st (held (m_sharedContainer s) = []) s"
    and d: "Consumer_data ordered (xs0 @ ps) s" by (auto simp: Consumer_inv_def)
  show ?thesis
  proof (cases e)
    case Call_enableWorkerThread
    with assms(1) have c: "c = 0 \<or> c = 2" "c' = Suc c" "ps' = ps"
      by (auto split: if_splits)
    from ctl_inv_enable[OF st c(1)] d c show ?thesis
      unfolding Consumer_inv_def Call_enableWorkerThread
      by (auto simp: enableWorkerThread_def)
  next
    case Call_disableWorkerThread
    with assms(1) have c: "c = 1" "c' = 2" "ps' = ps"
      by (auto split: if_splits)
    from ctl_inv_disable[of st _ s] st d c show ?thesis
      unfolding Consumer_inv_def Call_disableWorkerThread
      by (auto simp: disableWorkerThread_def)
  next
    case Call_shutdownMainThread
    with assms(1) show ?thesis by simp
  next
    case (Call_push x)
    with assms(1) have c: "c = 1" "c' = 1" "ps' = ps @ [x]"
      by (auto split: if_splits)
    from st c have "ctl_inv c' st (held (push x (m_sharedContainer s)) = []) s"
      using ctl_inv_src[of c st _ s] by simp
    with Consumer_data_push[OF d, of x] c show ?thesis
      unfolding Consumer_inv_def Call_push by auto
  next
    case (MainThread b)
    with assms(1) have c: "b" "c' = c" "ps' = ps" by (auto split: if_splits)
    from main_step[OF st] Consumer_data_main[OF st d] c show ?thesis
      unfolding Consumer_inv_def MainThread by auto
  next
    case (WorkerThread k)
    with assms(1) have c: "c' = c" "ps' = ps" by auto
    from Consumer_worker_inv(1,2)[OF st d, of k] c show ?thesis
      unfolding Consumer_inv_def WorkerThread by auto
  qed
qed

lemma Consumer_script:
  "script evs (c, ps) = Some (c', ps') \<Longrightarrow> Consumer_inv c ordered (xs0 @ ps) s \<Longrightarrow>
     Consumer_inv c' ordered (xs0 @ ps') (fold Consumer_event evs s)"
proof (induction evs arbitrary: c ps s)
  case Nil
  then show ?case by simp
next
  case (Cons e evs)
  from Cons.prems(1) obtain c1 ps1 where t: "track e (c, ps) = Some (c1, ps1)"
    and r: "script evs (c1, ps1) = Some (c', ps')"
    by (auto split: option.splits)
  from Consumer_track[OF t Cons.prems(2)] Cons.IH[OF r] show ?case by simp
qed

lemma Consumer_rest:
  assumes "Consumer_inv 3 ordered xs s" "at_rest s"
  shows "held (m_sharedContainer s) = []"
proof -
  from assms(1) obtain st where st: "ctl_inv 3 st (held (m_sharedContainer s) = []) s"
    by (auto simp: Consumer_inv_def)
  then have p: "pending s = drop (popped_commands st) (take 3 lifecycle)" by (simp add: ctl_inv_def)
  with assms(2) have "st = Enabled2" by (cases st) (simp_all add: at_rest_def lifecycle_def)
  with st assms(2) show ?thesis by (auto simp: ctl_inv_def at_rest_def live_def)
qed

lemma Consumer_drain:
  "ctl_inv 3 Enabled2 (held (m_sharedContainer s) = []) s \<Longrightarrow> Consumer_data ordered xs s \<Longrightarrow>
     length (held (m_sharedContainer s)) \<le> n \<Longrightarrow>
     ctl_inv 3 Enabled2 True (fold Consumer_event (replicate (Suc n) (WorkerThread 1)) s)
   \<and> Consumer_data ordered xs (fold Consumer_event (replicate (Suc n) (WorkerThread 1)) s)
   \<and> held (m_sharedContainer (fold Consumer_event (replicate (Suc n) (WorkerThread 1)) s)) = []
   \<and> worker_threads (fold Consumer_event (replicate (Suc n) (WorkerThread 1)) s) = [Returned, InWait]"
proof (induction n arbitrary: s)
  case 0
  let ?s' = "Consumer_workerThreadWork 1 s"
  from 0 have e: "held (m_sharedContainer s) = []" by simp
  from Consumer_worker_inv(4)[OF 0(1,2), of 1] e
  have w: "worker_threads ?s' = [Returned, InWait]" "held (m_sharedContainer ?s') = []" by simp_all
  from Consumer_worker_inv(1,2)[OF 0(1,2), of 1] w show ?case by simp
next
  case (Suc n)
  let ?s' = "Consumer_workerThreadWork 1 s"
  have "length (held (m_sharedContainer ?s')) \<le> n"
    using Consumer_worker_inv(4)[OF Suc.prems(1,2), of 1] Suc.prems(3)
    by (cases "held (m_sharedContainer s) = []") simp_all
  from Suc.IH[OF Consumer_worker_inv(1,2)[OF Suc.prems(1,2), of 1] this]
  show ?case by simp
qed

lemma Consumer_settle_prefix:
  assumes "Consumer_inv 3 ordered xs s"
  defines "s5 \<equiv> fold Consumer_event [MainThread True, MainThread True, WorkerThread 0,
                                       MainThread True, MainThread True] s"
  shows "ctl_inv 3 Enabled2 (held (m_sharedContainer s5) = []) s5"
    and "Consumer_data ordered xs s5"
    and "length (held (m_sharedContainer s5)) \<le> length (held (m_sharedContainer s))"
proof -
  let ?M = "mainThreadWork True :: 'a Consumer \<Rightarrow> 'a Consumer"
  let ?e = "\<lambda>s :: 'a Consumer. held (m_sharedContainer s) = []"
  let ?n = "\<lambda>s :: 'a Consumer. length (held (m_sharedContainer s))"
  from assms(1) obtain st0 where st0: "ctl_inv 3 st0 (?e s) s" and d0: "Consumer_data ordered xs s"
    by (auto simp: Consumer_inv_def)
  have M: "\<exists>st'. ctl_inv 3 st' (?e (?M t)) (?M t) \<and> Consumer_data ordered xs (?M t) \<and> ?n (?M t) = ?n t
            \<and> rank st \<le> rank st'
            \<and> (st = Fresh \<or> st = Enabled1 \<or> st = Disabled
                \<or> (st = Disabling \<and> worker_threads t = [Returned]) \<longrightarrow> rank st < rank st')"
    if "ctl_inv 3 st (?e t) t" "Consumer_data ordered xs t" for st t
    using main_advance[OF that(1)] Consumer_data_main[OF that] main_step(2)[OF that(1)] by simp
  define s1 where "s1 = ?M s"
  define s2 where "s2 = ?M s1"
  define s3 where "s3 = Consumer_workerThreadWork 0 s2"
  define s4 where "s4 = ?M s3"
  have s5: "s5 = ?M s4" by (simp add: s5_def s1_def s2_def s3_def s4_def)
  from M[OF st0 d0] obtain st1 where st1: "ctl_inv 3 st1 (?e s1) s1" "Consumer_data ordered xs s1"
    "?n s1 = ?n s" "1 \<le> rank st1"
    unfolding s1_def[symmetric] by (cases st0) auto
  from M[OF st1(1,2)] obtain st2 where st2: "ctl_inv 3 st2 (?e s2) s2" "Consumer_data ordered xs s2"
    "?n s2 = ?n s1" "2 \<le> rank st2"
    unfolding s2_def[symmetric] using st1(4) by (cases st1) auto
  from Consumer_worker_inv[OF st2(1,2), of 0]
  have st3: "ctl_inv 3 st2 (?e s3) s3" "Consumer_data ordered xs s3"
    "st2 = Disabling \<Longrightarrow> worker_threads s3 = [Returned]" "?n s3 \<le> ?n s2"
    unfolding s3_def[symmetric] by simp_all
  from M[OF st3(1,2)] obtain st4 where st4: "ctl_inv 3 st4 (?e s4) s4" "Consumer_data ordered xs s4"
    "?n s4 = ?n s3" "3 \<le> rank st4"
    unfolding s4_def[symmetric] using st2(4) st3(3) by (cases st2) auto
  from M[OF st4(1,2)] obtain st5 where st5: "ctl_inv 3 st5 (?e s5) s5" "Consumer_data ordered xs s5"
    "?n s5 = ?n s4" "4 \<le> rank st5"
    unfolding s5[symmetric] using st4(4) by (cases st4) auto
  from st5(4) have "st5 = Enabled2" by (cases st5) simp_all
  with st5 show "ctl_inv 3 Enabled2 (held (m_sharedContainer s5) = []) s5"
    and "Consumer_data ordered xs s5" by simp_all
  show "length (held (m_sharedContainer s5)) \<le> length (held (m_sharedContainer s))"
    using st1(3) st2(3) st3(4) st4(3) st5(3) by simp
qed

lemma Consumer_settle:
  assumes "Consumer_inv 3 ordered xs s" "length (held (m_sharedContainer s)) \<le> n"
  defines "s' \<equiv> fold Consumer_event (settle n) s"
  shows "at_rest s'" and "held (m_sharedContainer s') = []" and "Consumer_data ordered xs s'"
proof -
  let ?s5 = "fold Consumer_event [MainThread True, MainThread True, WorkerThread 0,
                                       MainThread True, MainThread True] s"
  have s': "s' = fold Consumer_event (replicate (Suc n) (WorkerThread 1)) ?s5"
    unfolding s'_def settle_def by (simp only: fold_append o_apply)
  from Consumer_settle_prefix[OF assms(1)] assms(2)
  have "ctl_inv 3 Enabled2 (held (m_sharedContainer ?s5) = []) ?s5" "Consumer_data ordered xs ?s5"
    "length (held (m_sharedContainer ?s5)) \<le> n" by simp_all
  from Consumer_drain[OF this] have r: "ctl_inv 3 Enabled2 True s'" "Consumer_data ordered xs s'"
    "held (m_sharedContainer s') = []" "worker_threads s' = [Returned, InWait]"
    unfolding s' by simp_all
  then show "held (m_sharedContainer s') = []" and "Consumer_data ordered xs s'" by simp_all
  from r(1,4) show "at_rest s'"
    by (simp add: at_rest_def ctl_inv_def lifecycle_def)
qed

lemma Producer_worker_Returned:
  assumes "can_step s k" "\<not> m_workerThreadEnabled s"
  shows "Producer_workerThreadWork k s =
             s\<lparr> m_isWorkerThreadRunning := False, worker_threads := (worker_threads s)[k := Returned] \<rparr>"
  using assms by (simp add: Producer_workerThreadWork_def set_pc_def)

lemma Producer_worker_InWait:
  assumes "can_step s k" "m_workerThreadEnabled s" "is_fifo (m_vectorItemsQueue s)"
    "held (m_vectorItemsQueue s) = []"
  shows "Producer_workerThreadWork k s =
             s\<lparr> m_isWorkerThreadRunning := (worker_threads s ! k = LoopTop \<or> m_isWorkerThreadRunning s),
                worker_threads := (worker_threads s)[k := InWait] \<rparr>"
  using assms(1,2) tryPop_ref_fifo(1)[OF assms(3,4)]
  by (simp add: Producer_workerThreadWork_def set_pc_def)

lemma Producer_worker_LoopTop:
  assumes "can_step s k" "m_workerThreadEnabled s"
    "tryPop_ref [] (m_vectorItemsQueue s) = (True, b, q)"
  shows "Producer_workerThreadWork k s =
             s\<lparr> m_isWorkerThreadRunning := (worker_threads s ! k = LoopTop \<or> m_isWorkerThreadRunning s),
                m_vectorItemsQueue := q, m_sharedContainer := fold push b (m_sharedContainer s),
                worker_threads := (worker_threads s)[k := LoopTop] \<rparr>"
  using assms by (simp add: Producer_workerThreadWork_def set_pc_def)

lemma Producer_data_pop:
  assumes "Producer_data sc xs s" "held (m_vectorItemsQueue s) \<noteq> []"
  shows "\<exists>b q. tryPop_ref [] (m_vectorItemsQueue s) = (True, b, q)
            \<and> Producer_data sc xs
                 (s\<lparr> m_vectorItemsQueue := q, m_sharedContainer := fold push b (m_sharedContainer s) \<rparr>)
            \<and> length (held q) < length (held (m_vectorItemsQueue s))"
proof -
  let ?buf = "m_vectorItemsQueue s"
  from assms(1) obtain ds where f: "is_fifo ?buf"
    and sh: "m_sharedContainer s = fold push (concat ds) sc" and c: "ds @ held ?buf = xs"
    by (auto simp: Producer_data_def)
  from assms(2) obtain b bs where b: "held ?buf = b # bs" by (cases "held ?buf") simp_all
  from tryPop_ref_fifo(2)[OF f b, of "[]"] obtain q where
    q: "tryPop_ref [] ?buf = (True, b, q)" "is_fifo q" "held q = bs" by blast
  have "fold push b (m_sharedContainer s) = fold push (concat (ds @ [b])) sc"
    by (simp add: sh)
  moreover have "(ds @ [b]) @ held q = xs" using c b q(3) by simp
  ultimately have "Producer_data sc xs
      (s\<lparr> m_vectorItemsQueue := q, m_sharedContainer := fold push b (m_sharedContainer s) \<rparr>)"
    unfolding Producer_data_def using q(2) by (simp del: append_assoc fold_append concat_append) blast
  with q b show ?thesis by simp
qed

lemma Producer_ctl_buffer [simp]:
  "ctl_inv c st e (s\<lparr> m_vectorItemsQueue := q \<rparr>) = ctl_inv c st e s"
  by (cases st) (simp_all add: ctl_inv_def pending_def)

lemma Producer_data_frame [simp]:
  "Producer_data sc xs (s\<lparr> m_isWorkerThreadRunning := r \<rparr>) = Producer_data sc xs s"
  "Producer_data sc xs (s\<lparr> worker_threads := W \<rparr>) = Producer_data sc xs s"
  "Producer_data sc xs (s\<lparr> m_commandQueue := cq \<rparr>) = Producer_data sc xs s"
  by (simp_all add: Producer_data_def)

lemma Producer_worker_inv:
  fixes s :: "'a Producer" and k :: nat
  assumes c: "ctl_inv c st (held (m_vectorItemsQueue s) = []) s" and d: "Producer_data sc xs s"
  defines "s' \<equiv> Producer_workerThreadWork k s"
  shows "ctl_inv c st (held (m_vectorItemsQueue s') = []) s'"
    and "Producer_data sc xs s'"
    and "st = Disabling \<Longrightarrow> k = 0 \<Longrightarrow> worker_threads s' = [Returned]"
    and "st = Enabled2 \<Longrightarrow> k = 1 \<Longrightarrow>
           (if held (m_vectorItemsQueue s) = []
            then worker_threads s' = [Returned, InWait] \<and> held (m_vectorItemsQueue s') = []
            else length (held (m_vectorItemsQueue s')) < length (held (m_vectorItemsQueue s)))"
    and "length (held (m_vectorItemsQueue s')) \<le> length (held (m_vectorItemsQueue s))"
proof -
  let ?buf = "m_vectorItemsQueue s"
  from c have fl: "fault s = None" and f: "is_fifo (m_commandQueue s)" and c3: "c \<le> 3"
    and pc: "popped_commands st \<le> c"
    and pe: "pending s = drop (popped_commands st) (take c lifecycle)"
    and st: "in_stage st (held ?buf = []) s"
    by (simp_all add: ctl_inv_def)
  from d have hv: "is_fifo ?buf" by (simp add: Producer_data_def)
  have "ctl_inv c st (held (m_vectorItemsQueue s') = []) s' \<and> Producer_data sc xs s'
      \<and> (st = Disabling \<longrightarrow> k = 0 \<longrightarrow> worker_threads s' = [Returned])
      \<and> (st = Enabled2 \<longrightarrow> k = 1 \<longrightarrow>
           (if held ?buf = []
            then worker_threads s' = [Returned, InWait] \<and> held (m_vectorItemsQueue s') = []
            else length (held (m_vectorItemsQueue s')) < length (held ?buf)))
      \<and> length (held (m_vectorItemsQueue s')) \<le> length (held ?buf)"
  proof (cases "can_step s k")
    case False
    then have "s' = s" by (simp add: s'_def Producer_workerThreadWork_def)
    with c d ctl_inv_stuck[OF c False] show ?thesis by auto
  next
    case True
    then have k: "k < length (worker_threads s)" "live (worker_threads s ! k)"
      by (simp_all add: can_step_def)
    show ?thesis
    proof (cases "m_workerThreadEnabled s")
      case False
      with st k obtain w where w: "st = Disabling" "worker_threads s = [w]" "k = 0"
          "m_mainThread s = Some (Join DisableWorkerThread)"
          "m_workerThread s = Some \<lparr> tid = 0, joined = False \<rparr>"
        by (cases st) (auto simp: live_def)
      have eq: "s' = s\<lparr> m_isWorkerThreadRunning := False, worker_threads := [Returned] \<rparr>"
        unfolding s'_def Producer_worker_Returned[OF True False] using w by simp
      have "ctl_inv c st (held (m_vectorItemsQueue s') = []) s'"
        unfolding eq using fl f c3 pc pe w False by (simp add: ctl_inv_def pending_def)
      moreover have "Producer_data sc xs s'" unfolding eq using d by simp
      moreover have "worker_threads s' = [Returned]" unfolding eq by simp
      moreover have "m_vectorItemsQueue s' = ?buf" unfolding eq by simp
      ultimately show ?thesis using w by simp
    next
      case en: True
      with st have "st = Enabled1 \<or> st = Enabled2" by (cases st) simp_all
      then have kw: "(st = Enabled1 \<and> k = 0 \<and> (\<exists>w. worker_threads s = [w]))
          \<or> (st = Enabled2 \<and> k = 1 \<and> (\<exists>w. worker_threads s = [Returned, w]))"
        using st k live_only[of k] by auto
      show ?thesis
      proof (cases "held ?buf = []")
        case True
        have eq: "s' = s\<lparr> m_isWorkerThreadRunning := (worker_threads s ! k = LoopTop \<or> m_isWorkerThreadRunning s),
                worker_threads := (worker_threads s)[k := InWait] \<rparr>"
          unfolding s'_def by (rule Producer_worker_InWait[OF \<open>can_step s k\<close> en hv True])
        have "ctl_inv c st (held (m_vectorItemsQueue s') = []) s'"
          unfolding eq using fl f c3 pc pe kw st en True
          by (auto simp: ctl_inv_def pending_def live_def)
        moreover have "Producer_data sc xs s'" unfolding eq using d by simp
        moreover have "st = Enabled2 \<longrightarrow> worker_threads s' = [Returned, InWait] \<and> held (m_vectorItemsQueue s') = []"
          unfolding eq using kw True by auto
        moreover have "m_vectorItemsQueue s' = ?buf" unfolding eq by simp
        ultimately show ?thesis using True kw by auto
      next
        case False
        from Producer_data_pop[OF d False] obtain b q where
          q: "tryPop_ref [] ?buf = (True, b, q)"
             "Producer_data sc xs
                 (s\<lparr> m_vectorItemsQueue := q, m_sharedContainer := fold push b (m_sharedContainer s) \<rparr>)"
             "length (held q) < length (held ?buf)" by blast
        have eq: "s' = s\<lparr> m_isWorkerThreadRunning := (worker_threads s ! k = LoopTop \<or> m_isWorkerThreadRunning s),
                m_vectorItemsQueue := q, m_sharedContainer := fold push b (m_sharedContainer s),
                worker_threads := (worker_threads s)[k := LoopTop] \<rparr>"
          unfolding s'_def by (rule Producer_worker_LoopTop[OF \<open>can_step s k\<close> en q(1)])
        have "ctl_inv c st (held (m_vectorItemsQueue s') = []) s'"
          unfolding eq using fl f c3 pc pe kw st en
          by (auto simp: ctl_inv_def pending_def live_def)
        moreover have "Producer_data sc xs s'"
          unfolding eq using q(2) by (simp add: Producer_data_def)
        moreover have "length (held (m_vectorItemsQueue s')) < length (held ?buf)"
          unfolding eq using q(3) by simp
        ultimately show ?thesis using False kw by auto
      qed
    qed
  qed
  then show "ctl_inv c st (held (m_vectorItemsQueue s') = []) s'"
    and "Producer_data sc xs s'"
    and "st = Disabling \<Longrightarrow> k = 0 \<Longrightarrow> worker_threads s' = [Returned]"
    and "st = Enabled2 \<Longrightarrow> k = 1 \<Longrightarrow>
           (if held (m_vectorItemsQueue s) = []
            then worker_threads s' = [Returned, InWait] \<and> held (m_vectorItemsQueue s') = []
            else length (held (m_vectorItemsQueue s')) < length (held (m_vectorItemsQueue s)))"
    and "length (held (m_vectorItemsQueue s')) \<le> length (held (m_vectorItemsQueue s))"
    by blast+
qed

lemma Producer_ctor_inv:
  "Producer_inv 0 sc [] (Producer_ctor True sc)"
proof -
  have "ctl_inv 0 Fresh e (Producer_ctor True sc)" for e
    by (simp add: ctl_inv_def Producer_ctor_def runMainThread_def pending_def
          is_fifo_def handles_valid_def held_def)
  moreover have "is_fifo (m_vectorItemsQueue (Producer_ctor True sc))"
    "held (m_vectorItemsQueue (Producer_ctor True sc)) = []"
    "m_sharedContainer (Producer_ctor True sc) = fold push (concat []) sc"
    by (simp_all add: Producer_ctor_def runMainThread_def is_fifo_def handles_valid_def held_def)
  ultimately show ?thesis unfolding Producer_inv_def Producer_data_def by blast
qed

lemma Producer_data_main:
  fixes s :: "'a Producer"
  assumes "ctl_inv c st e s" "Producer_data sc xs s"
  shows "Producer_data sc xs (mainThreadWork True s)"
    and "m_vectorItemsQueue (mainThreadWork True s) = m_vectorItemsQueue s"
  using assms(2) main_step(2)[OF assms(1)] Producer_more[OF main_step(3)[OF assms(1)]]
  by (simp_all add: Producer_data_def)

lemma Producer_data_push:
  assumes "Producer_data sc ps s"
  shows "Producer_data sc (ps @ [b]) (Producer_push b s)"
proof -
  let ?buf = "m_vectorItemsQueue s"
  from assms obtain ds where f: "is_fifo ?buf"
    and sh: "m_sharedContainer s = fold push (concat ds) sc" and c: "ds @ held ?buf = ps"
    by (auto simp: Producer_data_def)
  from push_fifo[OF f, of b] sh c
  have "is_fifo (push b ?buf)" "ds @ held (push b ?buf) = ps @ [b]" by simp_all
  with sh show ?thesis unfolding Producer_data_def Producer_push_def by auto
qed

lemma Producer_track:
  assumes "track e (c, ps) = Some (c', ps')" "Producer_inv c sc ps s"
  shows "Producer_inv c' sc ps' (Producer_event e s)"
proof -
  from assms(2) obtain st where st: "ctl_inv c st (held (m_vectorItemsQueue s) = []) s"
    and d: "Producer_data sc ps s" by (auto simp: Producer_inv_def)
  show ?thesis
  proof (cases e)
    case Call_enableWorkerThread
    with assms(1) have c: "c = 0 \<or> c = 2" "c' = Suc c" "ps' = ps"
      by (auto split: if_splits)
    from ctl_inv_enable[OF st c(1)] d c show ?thesis
      unfolding Producer_inv_def Call_enableWorkerThread
      by (auto simp: enableWorkerThread_def)
  next
    case Call_disableWorkerThread
    with assms(1) have c: "c = 1" "c' = 2" "ps' = ps"
      by (auto split: if_splits)
    from ctl_inv_disable[of st _ s] st d c show ?thesis
      unfolding Producer_inv_def Call_disableWorkerThread
      by (auto simp: disableWorkerThread_def)
  next
    case Call_shutdownMainThread
    with assms(1) show ?thesis by simp
  next
    case (Call_push b)
    with assms(1) have c: "c = 1" "c' = 1" "ps' = ps @ [b]"
      by (auto split: if_splits)
    from st c have "ctl_inv c' st (held (m_vectorItemsQueue (Producer_push b s)) = []) (Producer_push b s)"
      using ctl_inv_src[of c st _ s] by (simp add: Producer_push_def)
    with Producer_data_push[OF d, of b] c show ?thesis
      unfolding Producer_inv_def Call_push by auto
  next
    case (MainThread t)
    with assms(1) have c: "t" "c' = c" "ps' = ps" by (auto split: if_splits)
    from main_step[OF st] Producer_data_main[OF st d] c show ?thesis
      unfolding Producer_inv_def MainThread by auto
  next
    case (WorkerThread k)
    with assms(1) have c: "c' = c" "ps' = ps" by auto
    from Producer_worker_inv(1,2)[OF st d, of k] c show ?thesis
      unfolding Producer_inv_def WorkerThread by auto
  qed
qed

lemma Producer_script:
  "script evs (c, ps) = Some (c', ps') \<Longrightarrow> Producer_inv c sc ps s \<Longrightarrow>
     Producer_inv c' sc ps' (fold Producer_event evs s)"
proof (induction evs arbitrary: c ps s)
  case Nil
  then show ?case by simp
next
  case (Cons e evs)
  from Cons.prems(1) obtain c1 ps1 where t: "track e (c, ps) = Some (c1, ps1)"
    and r: "script evs (c1, ps1) = Some (c', ps')"
    by (auto split: option.splits)
  from Producer_track[OF t Cons.prems(2)] Cons.IH[OF r] show ?case by simp
qed

lemma Producer_rest:
  assumes "Producer_inv 3 sc xs s" "at_rest s"
  shows "held (m_vectorItemsQueue s) = []"
proof -
  from assms(1) obtain st where st: "ctl_inv 3 st (held (m_vectorItemsQueue s) = []) s"
    by (auto simp: Producer_inv_def)
  then have p: "pending s = drop (popped_commands st) (take 3 lifecycle)" by (simp add: ctl_inv_def)
  with assms(2) have "st = Enabled2" by (cases st) (simp_all add: at_rest_def lifecycle_def)
  with st assms(2) show ?thesis by (auto simp: ctl_inv_def at_rest_def live_def)
qed

lemma Producer_drain:
  "ctl_inv 3 Enabled2 (held (m_vectorItemsQueue s) = []) s \<Longrightarrow> Producer_data sc xs s \<Longrightarrow>
     length (held (m_vectorItemsQueue s)) \<le> n \<Longrightarrow>
     ctl_inv 3 Enabled2 True (fold Producer_event (replicate (Suc n) (WorkerThread 1)) s)
   \<and> Producer_data sc xs (fold Producer_event (replicate (Suc n) (WorkerThread 1)) s)
   \<and> held (m_vectorItemsQueue (fold Producer_event (replicate (Suc n) (WorkerThread 1)) s)) = []
   \<and> worker_threads (fold Producer_event (replicate (Suc n) (WorkerThread 1)) s) = [Returned, InWait]"
proof (induction n arbitrary: s)
  case 0
  let ?s' = "Producer_workerThreadWork 1 s"
  from 0 have e: "held (m_vectorItemsQueue s) = []" by simp
  from Producer_worker_inv(4)[OF 0(1,2), of 1] e
  have w: "worker_threads ?s' = [Returned, InWait]" "held (m_vectorItemsQueue ?s') = []" by simp_all
  from Producer_worker_inv(1,2)[OF 0(1,2), of 1] w show ?case by simp
next
  case (Suc n)
  let ?s' = "Producer_workerThreadWork 1 s"
  have "length (held (m_vectorItemsQueue ?s')) \<le> n"
    using Producer_worker_inv(4)[OF Suc.prems(1,2), of 1] Suc.prems(3)
    by (cases "held (m_vectorItemsQueue s) = []") simp_all
  from Suc.IH[OF Producer_worker_inv(1,2)[OF Suc.prems(1,2), of 1] this]
  show ?case by simp
qed

lemma Producer_settle_prefix:
  assumes "Producer_inv 3 sc xs s"
  defines "s5 \<equiv> fold Producer_event [MainThread True, MainThread True, WorkerThread 0,
                                       MainThread True, MainThread True] s"
  shows "ctl_inv 3 Enabled2 (held (m_vectorItemsQueue s5) = []) s5"
    and "Producer_data sc xs s5"
    and "length (held (m_vectorItemsQueue s5)) \<le> length (held (m_vectorItemsQueue s))"
proof -
  let ?M = "mainThreadWork True :: 'a Producer \<Rightarrow> 'a Producer"
  let ?e = "\<lambda>s :: 'a Producer. held (m_vectorItemsQueue s) = []"
  let ?n = "\<lambda>s :: 'a Producer. length (held (m_vectorItemsQueue s))"
  from assms(1) obtain st0 where st0: "ctl_inv 3 st0 (?e s) s" and d0: "Producer_data sc xs s"
    by (auto simp: Producer_inv_def)
  have M: "\<exists>st'. ctl_inv 3 st' (?e (?M t)) (?M t) \<and> Producer_data sc xs (?M t) \<and> ?n (?M t) = ?n t
            \<and> rank st \<le> rank st'
            \<and> (st = Fresh \<or> st = Enabled1 \<or> st = Disabled
                \<or> (st = Disabling \<and> worker_threads t = [Returned]) \<longrightarrow> rank st < rank st')"
    if "ctl_inv 3 st (?e t) t" "Producer_data sc xs t" for st t
    using main_advance[OF that(1)] Producer_data_main[OF that] by simp
  define s1 where "s1 = ?M s"
  define s2 where "s2 = ?M s1"
  define s3 where "s3 = Producer_workerThreadWork 0 s2"
  define s4 where "s4 = ?M s3"
  have s5: "s5 = ?M s4" by (simp add: s5_def s1_def s2_def s3_def s4_def)
  from M[OF st0 d0] obtain st1 where st1: "ctl_inv 3 st1 (?e s1) s1" "Producer_data sc xs s1"
    "?n s1 = ?n s" "1 \<le> rank st1"
    unfolding s1_def[symmetric] by (cases st0) auto
  from M[OF st1(1,2)] obtain st2 where st2: "ctl_inv 3 st2 (?e s2) s2" "Producer_data sc xs s2"
    "?n s2 = ?n s1" "2 \<le> rank st2"
    unfolding s2_def[symmetric] using st1(4) by (cases st1) auto
  from Producer_worker_inv[OF st2(1,2), of 0]
  have st3: "ctl_inv 3 st2 (?e s3) s3" "Producer_data sc xs s3"
    "st2 = Disabling \<Longrightarrow> worker_threads s3 = [Returned]" "?n s3 \<le> ?n s2"
    unfolding s3_def[symmetric] by simp_all
  from M[OF st3(1,2)] obtain st4 where st4: "ctl_inv 3 st4 (?e s4) s4" "Producer_data sc xs s4"
    "?n s4 = ?n s3" "3 \<le> rank st4"
    unfolding s4_def[symmetric] using st2(4) st3(3) by (cases st2) auto
  from M[OF st4(1,2)] obtain st5 where st5: "ctl_inv 3 st5 (?e s5) s5" "Producer_data sc xs s5"
    "?n s5 = ?n s4" "4 \<le> rank st5"
    unfolding s5[symmetric] using st4(4) by (cases st4) auto
  from st5(4) have "st5 = Enabled2" by (cases st5) simp_all
  with st5 show "ctl_inv 3 Enabled2 (held (m_vectorItemsQueue s5) = []) s5"
    and "Producer_data sc xs s5" by simp_all
  show "length (held (m_vectorItemsQueue s5)) \<le> length (held (m_vectorItemsQueue s))"
    using st1(3) st2(3) st3(4) st4(3) st5(3) by simp
qed

lemma Producer_settle:
  assumes "Producer_inv 3 sc xs s" "length (held (m_vectorItemsQueue s)) \<le> n"
  defines "s' \<equiv> fold Producer_event (settle n) s"
  shows "at_rest s'" and "held (m_vectorItemsQueue s') = []" and "Producer_data sc xs s'"
proof -
  let ?s5 = "fold Producer_event [MainThread True, MainThread True, WorkerThread 0,
                                       MainThread True, MainThread True] s"
  have s': "s' = fold Producer_event (replicate (Suc n) (WorkerThread 1)) ?s5"
    unfolding s'_def settle_def by (simp only: fold_append o_apply)
  from Producer_settle_prefix[OF assms(1)] assms(2)
  have "ctl_inv 3 Enabled2 (held (m_vectorItemsQueue ?s5) = []) ?s5" "Producer_data sc xs ?s5"
    "length (held (m_vectorItemsQueue ?s5)) \<le> n" by simp_all
  from Producer_drain[OF this] have r: "ctl_inv 3 Enabled2 True s'" "Producer_data sc xs s'"
    "held (m_vectorItemsQueue s') = []" "worker_threads s' = [Returned, InWait]"
    unfolding s' by simp_all
  then show "held (m_vectorItemsQueue s') = []" and "Producer_data sc xs s'" by simp_all
  from r(1,4) show "at_rest s'"
    by (simp add: at_rest_def ctl_inv_def lifecycle_def)
qed

lemma Producer_exit:
  assumes "can_step s k" "worker_threads (Producer_workerThreadWork k s) ! k = Returned"
  shows "m_vectorItemsQueue (Producer_workerThreadWork k s) = m_vectorItemsQueue s"
    and "m_sharedContainer (Producer_workerThreadWork k s) = m_sharedContainer s"
  using assms
  by (auto simp: Producer_workerThreadWork_def set_pc_def can_step_def Let_def
           split: prod.splits if_splits)

lemma Consumer_exit:
  assumes "can_step s k" "worker_threads (Consumer_workerThreadWork k s) ! k = Returned"
  shows "m_sharedContainer (Consumer_workerThreadWork k s) = m_sharedContainer s"
    and "calls (Consumer_workerThreadWork k s) = calls s"
  using assms
  by (auto simp: Consumer_workerThreadWork_def set_pc_def can_step_def Let_def
           split: prod.splits if_splits)

text \<open>
  What holds of the scenario for a controller that is alone on its container, if the system
  can start its threads and, for a consumer, the callable throws on no element and the
  elements come into the container between the first Enable and the Disable. A producer
  and a consumer are each constructed on a container \<open>sc\<close> whose handles are valid, and
  go through Enable, pushes of \<open>batches\<close> (of \<open>items\<close>), Disable, Enable, with the
  steps of the main thread and of the worker threads interleaved in any way. Then, in the
  state \<open>p\<close> of the producer: the shared container is \<open>sc\<close> with the items of the
  first batches pushed to it in order, and the other batches are in the buffer, in order;
  if the producer is at rest, all items have been pushed; and the schedule \<open>settle\<close>
  brings it to rest. In the state \<open>c\<close> of the consumer: every element that was in
  \<open>sc\<close> or was pushed has been passed to the callable or is in the shared container,
  once, and in the order of the pushes if the container is a queue; if the consumer is at
  rest, all have been passed to the callable; and the schedule \<open>settle\<close> brings it to
  rest. A step in which a worker thread returns from \<^verbatim>\<open>workerThreadWork\<close> pops
  nothing: it leaves the buffer and the shared container as they are.
\<close>

lemma each_controller_alone_delivers:
  fixes sc :: "'a ThreadsafeSTLAdapter" and callable :: "'a \<Rightarrow> bool" and default_elem :: 'a
    and producer_events :: "'a list event list" and consumer_events :: "'a event list"
  assumes "script producer_events (0, []) = Some (3, batches)"
    and "script consumer_events (0, []) = Some (3, items)"
    and "handles_valid sc" and "\<forall>x. callable x"
  defines "p \<equiv> fold Producer_event producer_events (Producer_ctor True sc)"
    and "c \<equiv> fold Consumer_event consumer_events (Consumer_ctor True default_elem sc callable)"
  defines "p' \<equiv> fold Producer_event (settle (length (held (m_vectorItemsQueue p)))) p"
    and "c' \<equiv> fold Consumer_event (settle (length (held (m_sharedContainer c)))) c"
  shows "(\<exists>forwarded. m_sharedContainer p = fold push (concat forwarded) sc
                   \<and> forwarded @ held (m_vectorItemsQueue p) = batches)
       \<and> (at_rest p \<longrightarrow> m_sharedContainer p = fold push (concat batches) sc)
       \<and> at_rest p' \<and> m_sharedContainer p' = fold push (concat batches) sc
       \<and> mset (calls c) + mset (held (m_sharedContainer c)) = mset (held sc) + mset items
       \<and> (is_fifo sc \<longrightarrow> calls c @ held (m_sharedContainer c) = held sc @ items)
       \<and> (at_rest c \<longrightarrow> mset (calls c) = mset (held sc) + mset items
                        \<and> (is_fifo sc \<longrightarrow> calls c = held sc @ items))
       \<and> at_rest c' \<and> mset (calls c') = mset (held sc) + mset items
       \<and> (is_fifo sc \<longrightarrow> calls c' = held sc @ items)
       \<and> (can_step ps k \<and> worker_threads (Producer_workerThreadWork k ps) ! k = Returned \<longrightarrow>
            m_vectorItemsQueue (Producer_workerThreadWork k ps) = m_vectorItemsQueue ps
          \<and> m_sharedContainer (Producer_workerThreadWork k ps) = m_sharedContainer ps)
       \<and> (can_step cs j \<and> worker_threads (Consumer_workerThreadWork j cs) ! j = Returned \<longrightarrow>
            m_sharedContainer (Consumer_workerThreadWork j cs) = m_sharedContainer cs
          \<and> calls (Consumer_workerThreadWork j cs) = calls cs)"
proof -
  have pi: "Producer_inv 3 sc batches p"
    unfolding p_def using Producer_script[OF assms(1) Producer_ctor_inv] .
  then have pd: "Producer_data sc batches p" by (simp add: Producer_inv_def)
  have prod_now: "\<exists>forwarded. m_sharedContainer p = fold push (concat forwarded) sc
                   \<and> forwarded @ held (m_vectorItemsQueue p) = batches"
    using pd by (simp add: Producer_data_def)
  have done_p: "m_sharedContainer t = fold push (concat batches) sc"
    if "Producer_data sc batches t" "held (m_vectorItemsQueue t) = []" for t :: "'a Producer"
    using that by (auto simp: Producer_data_def)
  have prod_rest: "at_rest p \<longrightarrow> m_sharedContainer p = fold push (concat batches) sc"
    using done_p[OF pd] Producer_rest[OF pi] by blast
  have prod_settle: "at_rest p'" "m_sharedContainer p' = fold push (concat batches) sc"
    using Producer_settle[OF pi order_refl] done_p[of p'] unfolding p'_def by blast+
  have ci: "Consumer_inv 3 (is_fifo sc) (held sc @ items) c"
    unfolding c_def
    using Consumer_script[OF assms(2), of "is_fifo sc" "held sc"]
          Consumer_ctor_inv[OF assms(3,4), of default_elem] by simp
  then have cd: "Consumer_data (is_fifo sc) (held sc @ items) c" by (simp add: Consumer_inv_def)
  have cons_now: "mset (calls c) + mset (held (m_sharedContainer c)) = mset (held sc) + mset items"
    "is_fifo sc \<longrightarrow> calls c @ held (m_sharedContainer c) = held sc @ items"
    using cd by (simp_all add: Consumer_data_def)
  have done_c: "mset (calls t) = mset (held sc) + mset items
                \<and> (is_fifo sc \<longrightarrow> calls t = held sc @ items)"
    if "Consumer_data (is_fifo sc) (held sc @ items) t" "held (m_sharedContainer t) = []"
    for t :: "'a Consumer"
    using that by (simp add: Consumer_data_def)
  have cons_rest: "at_rest c \<longrightarrow> mset (calls c) = mset (held sc) + mset items
                        \<and> (is_fifo sc \<longrightarrow> calls c = held sc @ items)"
    using done_c[OF cd] Consumer_rest[OF ci] by blast
  have cons_settle: "at_rest c'" "mset (calls c') = mset (held sc) + mset items
                \<and> (is_fifo sc \<longrightarrow> calls c' = held sc @ items)"
    using Consumer_settle[OF ci order_refl] done_c[of c'] unfolding c'_def by blast+
  from prod_now prod_rest prod_settle cons_now cons_rest cons_settle Producer_exit[of ps k] Consumer_exit[of cs j]
  show ?thesis by blast
qed

lemmas rest_defs = at_rest_def pending_def settle_def handles_valid_def is_fifo_def

lemmas sys_defs = System_ctor_def missed_wakeup_schedule_def stale_flag_events_def

text \<open>
  C3 fails in the first variant, on two inputs that the second variant delivers.

  A producer and a consumer on one queue go through \<open>missed_wakeup_schedule\<close>: each gets
  Enable, Disable, Enable, and the batch \<open>[7]\<close> is pushed to the producer before the
  Disable. The second worker thread of the consumer finds the container empty and waits on
  \<^verbatim>\<open>m_workerThreadCondVar\<close>; the second worker thread of the producer then forwards the
  batch with \<^verbatim>\<open>m_sharedContainer.push\<close>, which notifies nobody. Both controllers are at
  rest, the buffer of the producer is empty, 7 is in the shared container and the callable
  was never called; a step of either main thread or of the worker thread of the producer
  changes nothing. In the second variant the worker thread of the consumer polls: after
  the same schedule it is running, and its next iteration passes 7 to the callable.

  A consumer alone goes through \<open>stale_flag_events\<close> with a callable that throws on 1:
  the worker thread ends by the exception with \<^verbatim>\<open>m_isWorkerThreadRunning\<close> left set, so
  the main thread takes the second \<^verbatim>\<open>EnableWorkerThread\<close> for a request to enable a
  running thread and starts none: the controller is at rest, not enabled, with 2 in the
  shared container. The second variant has no such flag, starts the second worker thread
  and passes 2 to the callable.
\<close>

theorem second_Enable_leaves_items_undelivered:
  "script (producer_events missed_wakeup_schedule) (0, []) = Some (3, [[7]])
 \<and> script (consumer_events missed_wakeup_schedule) (0, []) = Some (3, [])
 \<and> at_rest (fst (fold System_event missed_wakeup_schedule
       (System_ctor True 0 \<lparr> m_adapter = Queue [], objects = [] \<rparr> (\<lambda>x. True))))
 \<and> at_rest (snd (fold System_event missed_wakeup_schedule
       (System_ctor True 0 \<lparr> m_adapter = Queue [], objects = [] \<rparr> (\<lambda>x. True))))
 \<and> held (m_vectorItemsQueue (fst (fold System_event missed_wakeup_schedule
       (System_ctor True 0 \<lparr> m_adapter = Queue [], objects = [] \<rparr> (\<lambda>x. True))))) = []
 \<and> held (m_sharedContainer (snd (fold System_event missed_wakeup_schedule
       (System_ctor True 0 \<lparr> m_adapter = Queue [], objects = [] \<rparr> (\<lambda>x. True))))) = [7]
 \<and> calls (snd (fold System_event missed_wakeup_schedule
       (System_ctor True 0 \<lparr> m_adapter = Queue [], objects = [] \<rparr> (\<lambda>x. True)))) = []
 \<and> worker_threads (snd (fold System_event missed_wakeup_schedule
       (System_ctor True 0 \<lparr> m_adapter = Queue [], objects = [] \<rparr> (\<lambda>x. True)))) = [Returned, InWait]
 \<and> mainThreadWork True (snd (fold System_event missed_wakeup_schedule
       (System_ctor True 0 \<lparr> m_adapter = Queue [], objects = [] \<rparr> (\<lambda>x. True))))
     = snd (fold System_event missed_wakeup_schedule
       (System_ctor True 0 \<lparr> m_adapter = Queue [], objects = [] \<rparr> (\<lambda>x. True)))
 \<and> mainThreadWork True (fst (fold System_event missed_wakeup_schedule
       (System_ctor True 0 \<lparr> m_adapter = Queue [], objects = [] \<rparr> (\<lambda>x. True))))
     = fst (fold System_event missed_wakeup_schedule
       (System_ctor True 0 \<lparr> m_adapter = Queue [], objects = [] \<rparr> (\<lambda>x. True)))
 \<and> Producer_workerThreadWork 1 (fst (fold System_event missed_wakeup_schedule
       (System_ctor True 0 \<lparr> m_adapter = Queue [], objects = [] \<rparr> (\<lambda>x. True))))
     = fst (fold System_event missed_wakeup_schedule
       (System_ctor True 0 \<lparr> m_adapter = Queue [], objects = [] \<rparr> (\<lambda>x. True)))
 \<and> worker_threads (snd (fold mt_System_event missed_wakeup_schedule
       (System_ctor True 0 \<lparr> m_adapter = Queue [], objects = [] \<rparr> (\<lambda>x. True)))) = [Returned, LoopTop]
 \<and> calls (snd (fold mt_System_event (missed_wakeup_schedule @ [Consumer_does (WorkerThread 1)])
       (System_ctor True 0 \<lparr> m_adapter = Queue [], objects = [] \<rparr> (\<lambda>x. True)))) = [7]
 \<and> script stale_flag_events (0, []) = Some (3, [1, 2])
 \<and> at_rest (fold Consumer_event stale_flag_events
       (Consumer_ctor True 0 \<lparr> m_adapter = Queue [], objects = [] \<rparr> (\<lambda>x. x \<noteq> 1)))
 \<and> calls (fold Consumer_event stale_flag_events
       (Consumer_ctor True 0 \<lparr> m_adapter = Queue [], objects = [] \<rparr> (\<lambda>x. x \<noteq> 1))) = [1]
 \<and> held (m_sharedContainer (fold Consumer_event stale_flag_events
       (Consumer_ctor True 0 \<lparr> m_adapter = Queue [], objects = [] \<rparr> (\<lambda>x. x \<noteq> 1)))) = [2]
 \<and> worker_threads (fold Consumer_event stale_flag_events
       (Consumer_ctor True 0 \<lparr> m_adapter = Queue [], objects = [] \<rparr> (\<lambda>x. x \<noteq> 1))) = [Threw]
 \<and> m_isWorkerThreadRunning (fold Consumer_event stale_flag_events
       (Consumer_ctor True 0 \<lparr> m_adapter = Queue [], objects = [] \<rparr> (\<lambda>x. x \<noteq> 1)))
 \<and> \<not> m_workerThreadEnabled (fold Consumer_event stale_flag_events
       (Consumer_ctor True 0 \<lparr> m_adapter = Queue [], objects = [] \<rparr> (\<lambda>x. x \<noteq> 1)))
 \<and> calls (fold mt_Consumer_event stale_flag_events
       (Consumer_ctor True 0 \<lparr> m_adapter = Queue [], objects = [] \<rparr> (\<lambda>x. x \<noteq> 1))) = [1, 2]
 \<and> held (m_sharedContainer (fold mt_Consumer_event stale_flag_events
       (Consumer_ctor True 0 \<lparr> m_adapter = Queue [], objects = [] \<rparr> (\<lambda>x. x \<noteq> 1)))) = []"
  by (simp add: sys_defs ctl_defs rest_defs)

end
